theory Spec2Isabelle
  imports Complex_Main
begin

section \<open>Values, errors and JavaScript numbers\<close>

text \<open>
  The library is JavaScript. The values a client puts into the store are modelled by
  \<open>jsval\<close>: the primitive values and plain data objects, \<open>Obj ps\<close> being the object
  whose own members are \<open>map_of ps\<close> and whose prototype is \<open>Object.prototype\<close>;
  objects are values, not references. Finite numbers are reals (IEEE rounding is not
  modelled); where the source divides by a value that may be zero the result is a
  \<open>jsnum\<close>, which also has the two infinities and NaN. All zeros are taken to be the
  positive zero.
\<close>

datatype jsval =
    Undefined
  | Null
  | Boolean bool
  | Num real
  | Str string
  | Obj "(string \<times> jsval) list"

datatype error =
    EmptyKey string \<comment> \<open>\<open>Error("Empty key in store: " + key)\<close>\<close>
  | TypeError \<comment> \<open>calling a member that is not a function\<close>
  | RangeError \<comment> \<open>the call stack is exhausted\<close>
  | Thrown nat \<comment> \<open>the exception raised by the user callback of that identity\<close>

datatype jsnum = Fin real | PosInf | NegInf | NaN

text \<open>\<open>a / b\<close> on finite numbers.\<close>

definition js_div :: "real \<Rightarrow> real \<Rightarrow> jsnum" where
  "js_div a b =
     (if b \<noteq> 0 then Fin (a / b)
      else if a = 0 then NaN
      else if 0 < a then PosInf else NegInf)"

text \<open>\<open>Math.max\<close> and \<open>Math.min\<close> of a finite number and a number.\<close>

fun math_max :: "real \<Rightarrow> jsnum \<Rightarrow> jsnum" where
  "math_max a (Fin b) = Fin (max a b)"
| "math_max a PosInf = PosInf"
| "math_max a NegInf = Fin a"
| "math_max a NaN = NaN"

fun math_min :: "real \<Rightarrow> jsnum \<Rightarrow> jsnum" where
  "math_min a (Fin b) = Fin (min a b)"
| "math_min a PosInf = Fin a"
| "math_min a NegInf = NegInf"
| "math_min a NaN = NaN"

text \<open>\<open>a + b\<close>, \<open>a * b\<close>, \<open>0 <= b\<close> and \<open>b <= a\<close> with one finite operand.\<close>

fun js_add :: "real \<Rightarrow> jsnum \<Rightarrow> jsnum" where
  "js_add a (Fin b) = Fin (a + b)"
| "js_add a PosInf = PosInf"
| "js_add a NegInf = NegInf"
| "js_add a NaN = NaN"

fun js_mul :: "real \<Rightarrow> jsnum \<Rightarrow> jsnum" where
  "js_mul a (Fin b) = Fin (a * b)"
| "js_mul a PosInf = (if a = 0 then NaN else if 0 < a then PosInf else NegInf)"
| "js_mul a NegInf = (if a = 0 then NaN else if 0 < a then NegInf else PosInf)"
| "js_mul a NaN = NaN"

fun js_ge :: "jsnum \<Rightarrow> real \<Rightarrow> bool" where
  "js_ge (Fin b) a = (a \<le> b)"
| "js_ge PosInf a = True"
| "js_ge NegInf a = False"
| "js_ge NaN a = False"

fun js_le :: "jsnum \<Rightarrow> real \<Rightarrow> bool" where
  "js_le (Fin b) a = (b \<le> a)"
| "js_le PosInf a = False"
| "js_le NegInf a = True"
| "js_le NaN a = False"

section \<open>Units\<close>

text \<open>
  The fields of \<open>class Unit\<close> that the verified operations read or write. The nested
  objects \<open>pos\<close>, \<open>size\<close>, \<open>rot\<close> and \<open>scale\<close> are flattened. \<open>hitTest\<close> is a field the
  constructor fills with the default test and that the attributes may replace;
  \<open>onClick\<close> is called through \<open>?.\<close>, so it may be absent.
\<close>

datatype hit_test = HitDefault | HitCustom "real \<Rightarrow> real \<Rightarrow> bool"

record unit =
  unit_name :: string
  pos_x :: real
  pos_y :: real
  width :: real
  height :: real
  rot_x :: real
  rot_y :: real
  scale_x :: real
  scale_y :: real
  enabled :: bool
  hitTest :: hit_test
  onClick :: "nat option"

definition getAttributeStoreName :: "unit \<Rightarrow> string \<Rightarrow> string" where
  "getAttributeStoreName u attributeName = unit_name u @ ''::'' @ attributeName"

section \<open>The observable store\<close>

text \<open>
  A listener is a function value, compared by identity in \<open>removeOnChange\<close>.
  \<open>Callback i\<close> is a user callback of identity \<open>i\<close>: calling it is recorded in \<open>calls\<close>,
  and it either returns or throws, as \<open>throws\<close> says; it does not call back into the
  library. \<open>UpdatePosition c this other direction padX padY\<close> is the closure
  \<open>updatePosition\<close> that one call of \<open>bindPositionRelativeTo\<close> creates, \<open>c\<close> being its
  identity and the rest its captured variables; units are referred to by reference
  into the heap \<open>units\<close>. All units belong to one context, hence to one store.
\<close>

datatype listener =
    Callback nat
  | UpdatePosition nat nat nat string real real

datatype proto = ObjectPrototype | NoPrototype | PlainObject "(string \<times> jsval) list"

datatype lookup = Value jsval | Member string

record world =
  store_data :: "string \<rightharpoonup> jsval"
  data_proto :: proto
  store_listeners :: "string \<rightharpoonup> listener list"
  units :: "nat \<Rightarrow> unit"
  next_closure :: nat
  throws :: "nat \<Rightarrow> jsval \<Rightarrow> bool"
  calls :: "(nat \<times> jsval) list"

text \<open>
  \<open>_data\<close> and \<open>_listeners\<close> are plain objects (\<open>{}\<close>) used as dictionaries, so a key
  that is not an own property is looked up along the prototype chain.
  \<open>store_data\<close> and \<open>store_listeners\<close> hold the own properties. \<open>data_proto\<close> is the
  prototype of \<open>_data\<close>: \<open>Object.prototype\<close> at first, and whatever an assignment to
  the key \<open>__proto__\<close> has made it, no prototype (\<open>null\<close>) or a plain object. The
  members of \<open>Object.prototype\<close> are listed in \<open>object_prototype_keys\<close>; all are
  writable data properties except the accessor \<open>__proto__\<close>. \<open>Member k\<close> is the value
  read for such a member, which is not a value of the model: a built-in function,
  and for \<open>__proto__\<close> the object \<open>Object.prototype\<close> itself.
\<close>

definition object_prototype_keys :: "string list" where
  "object_prototype_keys =
     [''constructor'', ''hasOwnProperty'', ''isPrototypeOf'', ''propertyIsEnumerable'',
      ''toLocaleString'', ''toString'', ''valueOf'', ''__proto__'',
      ''__defineGetter__'', ''__defineSetter__'', ''__lookupGetter__'', ''__lookupSetter__'']"

text \<open>
  A key looked up on \<open>Object.prototype\<close>, for the receiver \<open>_data\<close> whose prototype is
  \<open>p\<close>: the getter of \<open>__proto__\<close> returns the receiver's prototype.
\<close>

definition object_prototype_get :: "proto \<Rightarrow> string \<Rightarrow> lookup" where
  "object_prototype_get p key =
     (if key = ''__proto__'' then
        (case p of PlainObject ps \<Rightarrow> Value (Obj ps) | _ \<Rightarrow> Member ''__proto__'')
      else if key \<in> set object_prototype_keys then Member key
      else Value Undefined)"

text \<open>\<open>this._data[key]\<close>, read.\<close>

definition data_lookup :: "world \<Rightarrow> string \<Rightarrow> lookup" where
  "data_lookup w key =
     (case store_data w key of
        Some v \<Rightarrow> Value v
      | None \<Rightarrow>
          (case data_proto w of
             NoPrototype \<Rightarrow> Value Undefined
           | ObjectPrototype \<Rightarrow> object_prototype_get ObjectPrototype key
           | PlainObject ps \<Rightarrow>
               (case map_of ps key of
                  Some v \<Rightarrow> Value v
                | None \<Rightarrow> object_prototype_get (PlainObject ps) key)))"

text \<open>
  \<open>this._data[key] = value\<close>. The assignment makes or updates an own property,
  except when it reaches the setter of \<open>__proto__\<close> on \<open>Object.prototype\<close>, that is,
  when the key is \<open>__proto__\<close> and neither \<open>_data\<close> nor its prototype object has a
  member of that name: the setter replaces the prototype of \<open>_data\<close> for an object
  or \<open>null\<close> and does nothing for any other value.
\<close>

definition reaches_proto_setter :: "world \<Rightarrow> bool" where
  "reaches_proto_setter w =
     (store_data w ''__proto__'' = None \<and>
      (case data_proto w of
         ObjectPrototype \<Rightarrow> True
       | NoPrototype \<Rightarrow> False
       | PlainObject ps \<Rightarrow> map_of ps ''__proto__'' = None))"

definition data_assign :: "string \<Rightarrow> jsval \<Rightarrow> world \<Rightarrow> world" where
  "data_assign key val w =
     (if key = ''__proto__'' \<and> reaches_proto_setter w then
        (case val of
           Obj ps \<Rightarrow> w\<lparr>data_proto := PlainObject ps\<rparr>
         | Null \<Rightarrow> w\<lparr>data_proto := NoPrototype\<rparr>
         | _ \<Rightarrow> w)
      else w\<lparr>store_data := (store_data w)(key \<mapsto> val)\<rparr>)"

text \<open>
  \<open>this._listeners[key]\<close> used as an array: for a member of \<open>Object.prototype\<close>
  it is a built-in function, or \<open>Object.prototype\<close> itself for \<open>__proto__\<close>, and
  \<open>forEach\<close>, \<open>push\<close> and \<open>filter\<close> on it are not functions. The assignment in
  \<open>onChange\<close> then stores that same value, which changes neither this nor the
  prototype of \<open>_listeners\<close>.
\<close>

definition listeners_lookup :: "world \<Rightarrow> string \<Rightarrow> error + listener list option" where
  "listeners_lookup w key =
     (if key \<in> set object_prototype_keys then Inl TypeError
      else Inr (store_listeners w key))"

text \<open>The placement computed by \<open>updatePosition\<close>: the \<open>switch\<close> and the offset.\<close>

definition place :: "string \<Rightarrow> unit \<Rightarrow> unit \<Rightarrow> real \<Rightarrow> real \<Rightarrow> real \<times> real" where
  "place direction this other padX padY =
     (let (newX, newY) =
        (if direction = ''top-left'' then
           (pos_x other - width this, pos_y other - height this)
         else if direction = ''top-right'' then
           (pos_x other + width other, pos_y other - height this)
         else if direction = ''bottom-left'' then
           (pos_x other - width this, pos_y other + height other)
         else if direction = ''bottom-right'' then
           (pos_x other + width other, pos_y other + height other)
         else if direction = ''left'' then
           (pos_x other - width this, pos_y other + (height other - height this) / 2)
         else if direction = ''right'' then
           (pos_x other + width other, pos_y other + (height other - height this) / 2)
         else if direction = ''top'' then
           (pos_x other + (width other - width this) / 2, pos_y other - height this)
         else if direction = ''bottom'' then
           (pos_x other + (width other - width this) / 2, pos_y other + height other)
         else
           (pos_x other + (width other - width this) / 2,
            pos_y other + (height other - height this) / 2))
      in (newX + padX, newY + padY))"

text \<open>\<open>this[attr] = value\<close> of \<open>Unit.update\<close> for \<open>attr = "pos"\<close> and a value \<open>{x, y}\<close>.\<close>

definition assign_pos :: "nat \<Rightarrow> real \<times> real \<Rightarrow> world \<Rightarrow> world" where
  "assign_pos r p w =
     w\<lparr>units := (units w)(r := (units w r)\<lparr>pos_x := fst p, pos_y := snd p\<rparr>)\<rparr>"

definition pos_value :: "unit \<Rightarrow> jsval" where
  "pos_value u = Obj [(''x'', Num (pos_x u)), (''y'', Num (pos_y u))]"

text \<open>
  Calling a listener, \<open>forEach\<close> over a listener array, and \<open>DataStore.set\<close>. A listener
  can call \<open>set\<close> again (\<open>updatePosition\<close> does, through \<open>Unit.update\<close> and
  \<open>updateInStore\<close>), so the three are mutually recursive; the natural number is the
  depth of nested \<open>set\<close> calls the call stack still has room for. The result is the
  exception that propagates, if any, and the state reached.
\<close>

function call_listener :: "nat \<Rightarrow> listener \<Rightarrow> jsval \<Rightarrow> world \<Rightarrow> error option \<times> world"
  and forEach :: "nat \<Rightarrow> listener list \<Rightarrow> jsval \<Rightarrow> world \<Rightarrow> error option \<times> world"
  and store_set :: "nat \<Rightarrow> string \<Rightarrow> jsval \<Rightarrow> world \<Rightarrow> error option \<times> world"
where
  "call_listener n (Callback i) v w =
     (if throws w i v then Some (Thrown i) else None, w\<lparr>calls := calls w @ [(i, v)]\<rparr>)"
| "call_listener n (UpdatePosition c this other direction padX padY) v w =
     (let w1 = assign_pos this (place direction (units w this) (units w other) padX padY) w
      in store_set n (getAttributeStoreName (units w1 this) ''pos'') (pos_value (units w1 this)) w1)"
| "forEach n [] v w = (None, w)"
| "forEach n (f # fs) v w =
     (case call_listener n f v w of
        (None, w') \<Rightarrow> forEach n fs v w'
      | (Some e, w') \<Rightarrow> (Some e, w'))"
| "store_set 0 key val w = (Some RangeError, w)"
| "store_set (Suc n) key val w =
     (let w' = data_assign key val w
      in case listeners_lookup w' key of
           Inl e \<Rightarrow> (Some e, w')
         | Inr None \<Rightarrow> (None, w')
         | Inr (Some fs) \<Rightarrow> forEach n fs val w')"
  by pat_completeness auto
termination
  by (relation "inv_image (less_than <*lex*> less_than)
        (\<lambda>a. case a of
           Inl (n, f, v, w) \<Rightarrow> (n, 1)
         | Inr (Inl (n, fs, v, w)) \<Rightarrow> (n, 2 + length fs)
         | Inr (Inr (n, key, val, w)) \<Rightarrow> (n, 0))") auto

text \<open>\<open>DataStore.get\<close>: the test is \<open>!= null\<close>, which \<open>null\<close> and \<open>undefined\<close> both fail.\<close>

definition nullish :: "lookup \<Rightarrow> bool" where
  "nullish v = (v = Value Undefined \<or> v = Value Null)"

definition store_get :: "string \<Rightarrow> world \<Rightarrow> error + lookup" where
  "store_get key w =
     (if \<not> nullish (data_lookup w key) then Inr (data_lookup w key)
      else Inl (EmptyKey key))"

text \<open>\<open>DataStore.onChange\<close> and \<open>DataStore.removeOnChange\<close>.\<close>

definition onChange :: "string \<Rightarrow> listener \<Rightarrow> world \<Rightarrow> error option \<times> world" where
  "onChange key fn w =
     (case listeners_lookup w key of
        Inl e \<Rightarrow> (Some e, w)
      | Inr None \<Rightarrow> (None, w\<lparr>store_listeners := (store_listeners w)(key \<mapsto> [fn])\<rparr>)
      | Inr (Some fs) \<Rightarrow> (None, w\<lparr>store_listeners := (store_listeners w)(key \<mapsto> fs @ [fn])\<rparr>))"

definition removeOnChange :: "string \<Rightarrow> listener \<Rightarrow> world \<Rightarrow> error option \<times> world" where
  "removeOnChange key fn w =
     (case listeners_lookup w key of
        Inl e \<Rightarrow> (Some e, w)
      | Inr None \<Rightarrow> (None, w)
      | Inr (Some lst) \<Rightarrow>
          (None, w\<lparr>store_listeners := (store_listeners w)(key \<mapsto> filter (\<lambda>f. f \<noteq> fn) lst)\<rparr>))"

text \<open>The listener array of a key, empty when there is none (\<open>this._listeners[key] || []\<close>).\<close>

definition listeners_of :: "world \<Rightarrow> string \<Rightarrow> listener list" where
  "listeners_of w key = (case store_listeners w key of None \<Rightarrow> [] | Some fs \<Rightarrow> fs)"

text \<open>A client that registers the listeners of a list one after the other.\<close>

fun onChange_each :: "string \<Rightarrow> listener list \<Rightarrow> world \<Rightarrow> error option \<times> world" where
  "onChange_each key [] w = (None, w)"
| "onChange_each key (f # fs) w =
     (case onChange key f w of
        (None, w') \<Rightarrow> onChange_each key fs w'
      | (Some e, w') \<Rightarrow> (Some e, w'))"

text \<open>Every listener of the key is a user callback.\<close>

definition callbacks_only :: "world \<Rightarrow> string \<Rightarrow> bool" where
  "callbacks_only w key = list_all (\<lambda>f. case f of Callback i \<Rightarrow> True | _ \<Rightarrow> False) (listeners_of w key)"

text \<open>
  A fresh store, no user callback throwing, and every reference of the heap holding a
  unit with the constructor's default geometry.
\<close>

definition world0 :: world where
  "world0 = \<lparr>store_data = Map.empty, data_proto = ObjectPrototype,
     store_listeners = Map.empty,
     units = (\<lambda>r. \<lparr>unit_name = ''Unit'', pos_x = 10, pos_y = 10, width = 100, height = 100,
        rot_x = 0, rot_y = 0, scale_x = 1, scale_y = 1, enabled = True,
        hitTest = HitDefault, onClick = None\<rparr>),
     next_closure = 0, throws = (\<lambda>i v. False), calls = []\<rparr>"

text \<open>A store with two listeners on one key, the first of which throws.\<close>

definition world_throwing :: world where
  "world_throwing = world0\<lparr>store_listeners := [''k'' \<mapsto> [Callback 1, Callback 2]],
      throws := (\<lambda>i v. i = 1)\<rparr>"

section \<open>The task scheduler\<close>

text \<open>
  \<open>class ScheduledTask\<close> and its subclass \<open>AnimationTask\<close> are one record; \<open>anim\<close> holds
  the fields the subclass adds and is \<open>None\<close> for a plain task. \<open>fn\<close> is the identity of
  the user callback and \<open>repeat\<close> a whole number. A user callback is opaque: calling
  it is recorded in the scheduler's \<open>trace\<close>, with the task that made the call; it
  returns, and does not call back into the scheduler.
\<close>

record anim =
  startVal :: real
  endVal :: real
  curve :: "jsnum \<Rightarrow> jsnum"
  duration :: real
  animStart :: real

record task =
  task_name :: string
  delay :: real
  repeat :: int
  fn :: nat
  remaining :: int
  lastRun :: real
  channels :: "string list"
  pausedAt :: "real option"
  totalPausedTime :: real
  anim :: "anim option"

datatype event =
    Fired nat nat \<comment> \<open>task reference, callback: \<open>fn()\<close>\<close>
  | Sampled nat nat jsnum \<comment> \<open>task reference, callback, argument: \<open>fn(value)\<close>\<close>

definition INFINITE :: int where
  "INFINITE = - 1"

text \<open>The constructors; \<open>clock\<close> is what \<open>performance.now()\<close> returns inside them.\<close>

definition ScheduledTask ::
  "string \<Rightarrow> real \<Rightarrow> int \<Rightarrow> nat \<Rightarrow> string list \<Rightarrow> real \<Rightarrow> task" where
  "ScheduledTask name delay' repeat' fn' channels' clock =
     \<lparr>task_name = name, delay = delay', repeat = repeat', fn = fn', remaining = repeat',
      lastRun = clock, channels = channels', pausedAt = None, totalPausedTime = 0,
      anim = None\<rparr>"

definition AnimationTask ::
  "string \<Rightarrow> real \<Rightarrow> real \<Rightarrow> (jsnum \<Rightarrow> jsnum) option \<Rightarrow> real \<Rightarrow> nat \<Rightarrow> string list \<Rightarrow>
   real \<Rightarrow> real \<Rightarrow> task" where
  "AnimationTask name startVal' endVal' curve' duration' fn' channels' startTime clock =
     (ScheduledTask name 0 INFINITE fn' channels' clock)
       \<lparr>anim := Some \<lparr>startVal = startVal', endVal = endVal',
          curve = (case curve' of Some c \<Rightarrow> c | None \<Rightarrow> (\<lambda>t. t)),
          duration = duration', animStart = startTime\<rparr>\<rparr>"

definition shouldRun :: "task \<Rightarrow> real \<Rightarrow> bool" where
  "shouldRun t now = (now - lastRun t \<ge> delay t)"

text \<open>
  \<open>run\<close> of either class, for the task at reference \<open>r\<close>: the task after the call,
  whether it is still active, and the call of the user callback it made.
\<close>

definition run_plain :: "nat \<Rightarrow> task \<Rightarrow> real \<Rightarrow> task \<times> bool \<times> event" where
  "run_plain r t now =
     (let t1 = t\<lparr>lastRun := now\<rparr>;
          t2 = (if repeat t1 \<noteq> INFINITE then t1\<lparr>remaining := remaining t1 - 1\<rparr> else t1)
      in (t2, remaining t2 \<noteq> 0, Fired r (fn t)))"

definition run_anim :: "nat \<Rightarrow> task \<Rightarrow> anim \<Rightarrow> real \<Rightarrow> task \<times> bool \<times> event" where
  "run_anim r t a now =
     (let elapsed = now - animStart a - totalPausedTime t;
          rawProgress = math_min 1 (math_max 0 (js_div elapsed (duration a)));
          curvedProgress = curve a rawProgress;
          val = js_add (startVal a) (js_mul (endVal a - startVal a) curvedProgress)
      in (t\<lparr>lastRun := now\<rparr>, elapsed < duration a, Sampled r (fn t) val))"

definition run :: "nat \<Rightarrow> task \<Rightarrow> real \<Rightarrow> task \<times> bool \<times> event" where
  "run r t now = (case anim t of None \<Rightarrow> run_plain r t now | Some a \<Rightarrow> run_anim r t a now)"

definition notifyPaused :: "task \<Rightarrow> real \<Rightarrow> task" where
  "notifyPaused t now = t\<lparr>pausedAt := Some now\<rparr>"

definition notifyResumed :: "task \<Rightarrow> real \<Rightarrow> task" where
  "notifyResumed t now =
     (case pausedAt t of
        None \<Rightarrow> t
      | Some p \<Rightarrow>
          (case anim t of
             None \<Rightarrow> t\<lparr>lastRun := lastRun t + (now - p), pausedAt := None\<rparr>
           | Some a \<Rightarrow> t\<lparr>totalPausedTime := totalPausedTime t + (now - p), pausedAt := None\<rparr>))"

text \<open>
  \<open>class TaskScheduler\<close>. The task objects live in \<open>heap\<close>, \<open>tasks\<close> lists their
  references, and \<open>sched_now\<close> is the field \<open>now\<close>.
\<close>

record scheduler =
  heap :: "nat \<Rightarrow> task"
  next_ref :: nat
  tasks :: "nat list"
  running :: bool
  sched_now :: real
  pausedChannels :: "string set"
  trace :: "event list"

definition TaskScheduler :: scheduler where
  "TaskScheduler =
     \<lparr>heap = (\<lambda>r. ScheduledTask [] 0 0 0 [] 0), next_ref = 0, tasks = [], running = False,
      sched_now = 0, pausedChannels = {}, trace = []\<rparr>"

definition remove :: "string \<Rightarrow> scheduler \<Rightarrow> scheduler" where
  "remove name s = s\<lparr>tasks := filter (\<lambda>r. task_name (heap s r) \<noteq> name) (tasks s)\<rparr>"

text \<open>\<open>this.tasks.push(new ...)\<close>: the new object gets the next free reference.\<close>

definition push :: "task \<Rightarrow> scheduler \<Rightarrow> scheduler" where
  "push t s =
     s\<lparr>heap := (heap s)(next_ref s := t), next_ref := Suc (next_ref s),
       tasks := tasks s @ [next_ref s]\<rparr>"

definition add ::
  "string \<Rightarrow> real \<Rightarrow> int \<Rightarrow> nat \<Rightarrow> string list \<Rightarrow> real \<Rightarrow> scheduler \<Rightarrow> scheduler" where
  "add name delay' repeat' fn' channels' clock s =
     push (ScheduledTask name delay' repeat' fn' channels' clock) (remove name s)"

definition addAnim ::
  "string \<Rightarrow> real \<Rightarrow> real \<Rightarrow> (jsnum \<Rightarrow> jsnum) option \<Rightarrow> real \<Rightarrow> nat \<Rightarrow> string list \<Rightarrow>
   real \<Rightarrow> real \<Rightarrow> scheduler \<Rightarrow> scheduler" where
  "addAnim name startVal' endVal' curve' duration' fn' channels' startTime clock s =
     push (AnimationTask name startVal' endVal' curve' duration' fn' channels' startTime clock)
       (remove name s)"

text \<open>
  One frame, the function \<open>loop\<close> inside \<open>start\<close>: \<open>loop_body\<close> is the body of its
  \<open>for\<close> over the snapshot \<open>currentTasks\<close>. The request for the next frame is the
  caller's next call of \<open>loop\<close>.
\<close>

definition loop_body :: "real \<Rightarrow> nat \<Rightarrow> scheduler \<Rightarrow> scheduler" where
  "loop_body now r s =
     (let task = heap s r
      in if list_ex (\<lambda>ch. ch \<in> pausedChannels s) (channels task) then s
         else if shouldRun task now then
           (let (task', stillActive, ev) = run r task now;
                s1 = s\<lparr>heap := (heap s)(r := task'), trace := trace s @ [ev]\<rparr>
            in if \<not> stillActive then remove (task_name task') s1 else s1)
         else s)"

fun for_tasks :: "real \<Rightarrow> nat list \<Rightarrow> scheduler \<Rightarrow> scheduler" where
  "for_tasks now [] s = s"
| "for_tasks now (r # rs) s = for_tasks now rs (loop_body now r s)"

definition loop :: "real \<Rightarrow> scheduler \<Rightarrow> scheduler" where
  "loop now s =
     (if \<not> running s then s
      else (let s1 = s\<lparr>sched_now := now\<rparr> in for_tasks now (tasks s1) s1))"

text \<open>The frames at the given times, one after the other.\<close>

fun frames :: "real list \<Rightarrow> scheduler \<Rightarrow> scheduler" where
  "frames [] s = s"
| "frames (now # ts) s = frames ts (loop now s)"

definition start :: "scheduler \<Rightarrow> scheduler" where
  "start s = (if running s then s else s\<lparr>running := True\<rparr>)"

text \<open>The \<open>for\<close> loops of \<open>pause\<close> and \<open>resume\<close>, over \<open>this.tasks\<close>.\<close>

fun notify_each :: "(task \<Rightarrow> real \<Rightarrow> task) \<Rightarrow> string \<Rightarrow> nat list \<Rightarrow> scheduler \<Rightarrow> scheduler" where
  "notify_each notify channel [] s = s"
| "notify_each notify channel (r # rs) s =
     notify_each notify channel rs
       (if channel \<in> set (channels (heap s r))
        then s\<lparr>heap := (heap s)(r := notify (heap s r) (sched_now s))\<rparr>
        else s)"

definition pause :: "string \<Rightarrow> scheduler \<Rightarrow> scheduler" where
  "pause channel s =
     (let s1 = s\<lparr>pausedChannels := insert channel (pausedChannels s)\<rparr>
      in notify_each notifyPaused channel (tasks s1) s1)"

definition resume :: "string \<Rightarrow> scheduler \<Rightarrow> scheduler" where
  "resume channel s =
     (let s1 = s\<lparr>pausedChannels := pausedChannels s - {channel}\<rparr>;
          s2 = notify_each notifyResumed channel (tasks s1) s1
      in if \<not> running s2 then start s2 else s2)"

definition stop :: "string option \<Rightarrow> scheduler \<Rightarrow> scheduler" where
  "stop channel s =
     (case channel of
        None \<Rightarrow> s\<lparr>running := False, pausedChannels := {}, tasks := []\<rparr>
      | Some c \<Rightarrow>
          s\<lparr>tasks := filter (\<lambda>r. c \<notin> set (channels (heap s r))) (tasks s),
            pausedChannels := pausedChannels s - {c}\<rparr>)"

text \<open>The operations of a scheduler, for a client that performs a sequence of them.\<close>

datatype sched_op =
    Add string real int nat "string list" real
  | AddAnim string real real "(jsnum \<Rightarrow> jsnum) option" real nat "string list" real real
  | Remove string
  | Start
  | Frame real
  | Pause string
  | Resume string
  | Stop "string option"

fun perform :: "scheduler \<Rightarrow> sched_op \<Rightarrow> scheduler" where
  "perform s (Add name delay' repeat' fn' channels' clock) =
     add name delay' repeat' fn' channels' clock s"
| "perform s (AddAnim name startVal' endVal' curve' duration' fn' channels' startTime clock) =
     addAnim name startVal' endVal' curve' duration' fn' channels' startTime clock s"
| "perform s (Remove name) = remove name s"
| "perform s Start = start s"
| "perform s (Frame now) = loop now s"
| "perform s (Pause channel) = pause channel s"
| "perform s (Resume channel) = resume channel s"
| "perform s (Stop channel) = stop channel s"

text \<open>The names of the scheduled tasks, in list order.\<close>

definition names_of :: "scheduler \<Rightarrow> string list" where
  "names_of s = map (\<lambda>r. task_name (heap s r)) (tasks s)"

text \<open>
  The scheduler invariant: the listed references have been allocated, and no two
  scheduled tasks have the same name. \<open>shrinks s s'\<close> relates a state to one in which
  tasks may have been dropped from the list and no task has changed its name.
\<close>

definition sched_inv :: "scheduler \<Rightarrow> bool" where
  "sched_inv s = ((\<forall>r\<in>set (tasks s). r < next_ref s) \<and> distinct (names_of s))"

definition shrinks :: "scheduler \<Rightarrow> scheduler \<Rightarrow> bool" where
  "shrinks s s' =
     (next_ref s' = next_ref s \<and> (\<forall>r. task_name (heap s' r) = task_name (heap s r)) \<and>
      (\<exists>P. tasks s' = filter P (tasks s)))"

text \<open>
  What the scheduler holds about one task object: the object, whether it is
  scheduled, and the calls of its callback so far. \<open>task_frame\<close> is the effect of one
  frame on it.
\<close>

fun event_task :: "event \<Rightarrow> nat" where
  "event_task (Fired r f) = r"
| "event_task (Sampled r f v) = r"

definition events_of :: "nat \<Rightarrow> event list \<Rightarrow> event list" where
  "events_of r tr = filter (\<lambda>e. event_task e = r) tr"

definition view :: "nat \<Rightarrow> scheduler \<Rightarrow> task \<times> bool \<times> event list" where
  "view r s = (heap s r, r \<in> set (tasks s), events_of r (trace s))"

definition task_frame ::
  "nat \<Rightarrow> string set \<Rightarrow> real \<Rightarrow> task \<times> bool \<times> event list \<Rightarrow> task \<times> bool \<times> event list" where
  "task_frame r paused now v =
     (case v of (t, scheduled, evs) \<Rightarrow>
        if \<not> scheduled then v
        else if list_ex (\<lambda>ch. ch \<in> paused) (channels t) then v
        else if shouldRun t now then
          (case run r t now of (t', stillActive, ev) \<Rightarrow> (t', stillActive, evs @ [ev]))
        else v)"


text \<open>
  The number of frames, among those at the given times, at which a task of delay \<open>d\<close>
  that last ran at \<open>lastRun'\<close> is due, when it runs at each frame at which it is due.
\<close>

fun due_count :: "real \<Rightarrow> real \<Rightarrow> real list \<Rightarrow> nat" where
  "due_count lastRun' d [] = 0"
| "due_count lastRun' d (now # ts) =
     (if now - lastRun' \<ge> d then Suc (due_count now d ts) else due_count lastRun' d ts)"

text \<open>Every recorded call was made by a task that has been allocated.\<close>

definition trace_inv :: "scheduler \<Rightarrow> bool" where
  "trace_inv s = (\<forall>e\<in>set (trace s). event_task e < next_ref s)"

text \<open>
  A started scheduler with one animation from 0 to 10 over 100 ms, with the default
  curve, constructed at time 0.
\<close>

definition anim_example :: scheduler where
  "anim_example =
     foldl perform TaskScheduler
       [Start, AddAnim ''fade'' 0 10 None 100 3 [''global'', ''animation''] 0 0]"



section \<open>Hit testing and click dispatch\<close>

text \<open>
  \<open>getCenterPos\<close> is the function the constructor installs
  (\<open>calculateCenterPosFactory\<close>), and \<open>hitTestDefault u\<close> the function
  \<open>hitTestDefaultFactory(u)\<close> returns.
\<close>

definition getCenterPos :: "unit \<Rightarrow> real \<times> real" where
  "getCenterPos u = (pos_x u + width u / 2, pos_y u + height u / 2)"

definition hitTestDefault :: "unit \<Rightarrow> real \<Rightarrow> real \<Rightarrow> bool" where
  "hitTestDefault u x y =
     (let (cx, cy) = getCenterPos u;
          lx = x - cx;
          ly = y - cy;
          sin' = sin (- rot_x u);
          cos' = cos (- rot_x u);
          rx = lx * cos' - ly * sin';
          ry = lx * sin' + ly * cos';
          rx' = js_div rx (scale_x u);
          ry' = js_div ry (scale_y u);
          finalX = js_add (width u / 2) rx';
          finalY = js_add (height u / 2) ry'
      in js_ge finalX 0 \<and> js_ge finalY 0 \<and> js_le finalX (width u) \<and> js_le finalY (height u))"

text \<open>\<open>unit.hitTest(x, y)\<close>, through the field.\<close>

definition unit_hitTest :: "unit \<Rightarrow> real \<Rightarrow> real \<Rightarrow> bool" where
  "unit_hitTest u x y =
     (case hitTest u of HitDefault \<Rightarrow> hitTestDefault u x y | HitCustom h \<Rightarrow> h x y)"

text \<open>
  The \<open>click\<close> handler of \<open>GestureDetector\<close>, for a click at the canvas point
  \<open>(x, y)\<close>: \<open>click_scan\<close> is its \<open>for\<close> loop with the \<open>break\<close>, and the result lists
  the calls \<open>unit.onClick(event)\<close> made, as the unit and its handler.
\<close>

fun click_scan :: "unit list \<Rightarrow> real \<Rightarrow> real \<Rightarrow> (unit \<times> nat) list" where
  "click_scan [] x y = []"
| "click_scan (u # us) x y =
     (if unit_hitTest u x y \<and> enabled u
      then (case onClick u of None \<Rightarrow> [] | Some h \<Rightarrow> [(u, h)])
      else click_scan us x y)"

definition click :: "unit list \<Rightarrow> real \<Rightarrow> real \<Rightarrow> (unit \<times> nat) list" where
  "click units' x y = click_scan (rev units') x y"

text \<open>
  The hit test in the words of its specification: the query point is translated by
  the negative center, rotated by \<open>- rot.x\<close>, divided componentwise by the scale and
  shifted by half the size, and the result is tested against the box
  \<open>[0, width] \<times> [0, height]\<close>. \<open>to_canvas\<close> is the transform the unit is drawn with:
  a point of the box is taken relative to the box's middle, scaled, rotated by
  \<open>rot.x\<close> and moved to the center.
\<close>

definition rotate :: "real \<Rightarrow> real \<times> real \<Rightarrow> real \<times> real" where
  "rotate a p = (fst p * cos a - snd p * sin a, fst p * sin a + snd p * cos a)"

definition to_local :: "unit \<Rightarrow> real \<times> real \<Rightarrow> real \<times> real" where
  "to_local u p =
     (let q = rotate (- rot_x u) (fst p - fst (getCenterPos u), snd p - snd (getCenterPos u))
      in (fst q / scale_x u + width u / 2, snd q / scale_y u + height u / 2))"

definition in_box :: "unit \<Rightarrow> real \<times> real \<Rightarrow> bool" where
  "in_box u p = (0 \<le> fst p \<and> fst p \<le> width u \<and> 0 \<le> snd p \<and> snd p \<le> height u)"

definition to_canvas :: "unit \<Rightarrow> real \<times> real \<Rightarrow> real \<times> real" where
  "to_canvas u p =
     (let q = rotate (rot_x u) (scale_x u * (fst p - width u / 2), scale_y u * (snd p - height u / 2))
      in (fst (getCenterPos u) + fst q, snd (getCenterPos u) + snd q))"

text \<open>The unit the constructor makes, and the same unit with a handler.\<close>

definition default_unit :: unit where
  "default_unit =
     \<lparr>unit_name = ''Unit'', pos_x = 10, pos_y = 10, width = 100, height = 100,
      rot_x = 0, rot_y = 0, scale_x = 1, scale_y = 1, enabled = True,
      hitTest = HitDefault, onClick = None\<rparr>"

text \<open>Two overlapping units with click handlers, and a unit wider than high.\<close>

definition unit_A :: unit where
  "unit_A = default_unit\<lparr>unit_name := ''A'', onClick := Some 1\<rparr>"

definition unit_B :: unit where
  "unit_B = default_unit\<lparr>unit_name := ''B'', pos_x := 40, pos_y := 40, onClick := Some 2\<rparr>"

definition wide_unit :: unit where
  "wide_unit = default_unit\<lparr>pos_x := 0, pos_y := 0, width := 100, height := 20\<rparr>"

section \<open>Position binding\<close>

text \<open>
  \<open>Unit.update("pos", {x, y})\<close> on the unit at reference \<open>r\<close>: the assignment, then
  \<open>updateInStore\<close>, which reads the attribute back and calls \<open>store.set\<close> under the
  unit's key. This is also what the closure \<open>updatePosition\<close> ends with.
\<close>

definition update_pos :: "nat \<Rightarrow> nat \<Rightarrow> real \<times> real \<Rightarrow> world \<Rightarrow> error option \<times> world" where
  "update_pos n r p w =
     (let w1 = assign_pos r p w
      in store_set n (getAttributeStoreName (units w1 r) ''pos'') (pos_value (units w1 r)) w1)"

text \<open>
  \<open>bindPositionRelativeTo(otherUnit, direction, {x: padX, y: padY})\<close> on the unit
  \<open>this\<close>: a new closure, the seven calls of \<open>watch\<close> in order, and the first call of
  the closure. The list \<open>_boundPositionListeners\<close>, which only
  \<open>unbindPositionRelativeTo\<close> reads, is left out.
\<close>

fun watch_each :: "string list \<Rightarrow> listener \<Rightarrow> world \<Rightarrow> error option \<times> world" where
  "watch_each [] f w = (None, w)"
| "watch_each (key # keys) f w =
     (case onChange key f w of
        (None, w') \<Rightarrow> watch_each keys f w'
      | (Some e, w') \<Rightarrow> (Some e, w'))"

definition bindPositionRelativeTo ::
  "nat \<Rightarrow> nat \<Rightarrow> nat \<Rightarrow> string \<Rightarrow> real \<Rightarrow> real \<Rightarrow> world \<Rightarrow> error option \<times> world" where
  "bindPositionRelativeTo n this other direction padX padY w =
     (let updatePosition = UpdatePosition (next_closure w) this other direction padX padY;
          w0 = w\<lparr>next_closure := Suc (next_closure w)\<rparr>;
          otherUnit = units w0 other;
          thisUnit = units w0 this
      in case watch_each
                [getAttributeStoreName otherUnit ''pos'', getAttributeStoreName otherUnit ''size'',
                 getAttributeStoreName otherUnit ''rot'', getAttributeStoreName otherUnit ''scale'',
                 getAttributeStoreName thisUnit ''size'', getAttributeStoreName thisUnit ''rot'',
                 getAttributeStoreName thisUnit ''scale'']
                updatePosition w0 of
           (None, w1) \<Rightarrow> call_listener n updatePosition Undefined w1
         | (Some e, w1) \<Rightarrow> (Some e, w1))"

text \<open>A client that moves a unit through the positions of a list.\<close>

fun update_each :: "nat \<Rightarrow> nat \<Rightarrow> (real \<times> real) list \<Rightarrow> world \<Rightarrow> error option \<times> world" where
  "update_each n r [] w = (None, w)"
| "update_each n r (p # ps) w =
     (case update_pos n r p w of
        (None, w') \<Rightarrow> update_each n r ps w'
      | (Some e, w') \<Rightarrow> (Some e, w'))"

text \<open>
  Two units of different names and sizes in a fresh store: \<open>A\<close> at reference 0 and
  \<open>B\<close> at every other reference.
\<close>

definition world_two :: world where
  "world_two =
     world0\<lparr>units := (\<lambda>r. if r = 0 then default_unit\<lparr>unit_name := ''A''\<rparr>
                       else default_unit\<lparr>unit_name := ''B'', width := 30, height := 40\<rparr>)\<rparr>"

section \<open>Verified properties\<close>

subsection \<open>Store: registration and notification\<close>

lemma data_assign_other [simp]:
  "key \<noteq> ''__proto__'' \<Longrightarrow>
   data_assign key v w = w\<lparr>store_data := (store_data w)(key \<mapsto> v)\<rparr>"
  by (simp add: data_assign_def)

lemma plain_key_not_proto: "key \<notin> set object_prototype_keys \<Longrightarrow> key \<noteq> ''__proto__''"
  by (auto simp: object_prototype_keys_def)

lemma onChange_plain:
  "key \<notin> set object_prototype_keys \<Longrightarrow>
   onChange key f w = (None, w\<lparr>store_listeners := (store_listeners w)(key \<mapsto> listeners_of w key @ [f])\<rparr>)"
  by (simp add: onChange_def listeners_lookup_def listeners_of_def split: option.splits)

lemma onChange_each_plain:
  "key \<notin> set object_prototype_keys \<Longrightarrow> onChange_each key fs w = (e, w') \<Longrightarrow>
   e = None \<and> listeners_of w' key = listeners_of w key @ fs \<and> throws w' = throws w \<and>
   calls w' = calls w \<and> store_data w' = store_data w \<and> units w' = units w"
proof (induction fs arbitrary: w)
  case Nil
  then show ?case by simp
next
  case (Cons f fs)
  from Cons.prems have "onChange_each key fs
      (w\<lparr>store_listeners := (store_listeners w)(key \<mapsto> listeners_of w key @ [f])\<rparr>) = (e, w')"
    by (simp add: onChange_plain)
  from Cons.IH[OF Cons.prems(1) this] show ?case
    by (simp add: listeners_of_def)
qed

lemma forEach_callbacks:
  "\<forall>i\<in>set ls. \<not> throws w i v \<Longrightarrow>
   forEach n (map Callback ls) v w = (None, w\<lparr>calls := calls w @ map (\<lambda>i. (i, v)) ls\<rparr>)"
  by (induction ls arbitrary: w) auto

lemma forEach_thrower:
  "\<forall>i\<in>set pre. \<not> throws w i v \<Longrightarrow> throws w t v \<Longrightarrow>
   forEach n (map Callback (pre @ t # post)) v w =
     (Some (Thrown t), w\<lparr>calls := calls w @ map (\<lambda>i. (i, v)) (pre @ [t])\<rparr>)"
  by (induction pre arbitrary: w) auto

lemma store_set_plain:
  "key \<notin> set object_prototype_keys \<Longrightarrow>
   store_set (Suc n) key v w =
     forEach n (listeners_of w key) v (w\<lparr>store_data := (store_data w)(key \<mapsto> v)\<rparr>)"
  by (simp add: listeners_lookup_def listeners_of_def plain_key_not_proto split: option.splits)

lemma forEach_callbacks_data:
  "forEach n (map Callback ls) v w = (e, w') \<Longrightarrow> store_data w' = store_data w"
  by (induction ls arbitrary: w) (auto split: if_splits)

lemma callbacks_onlyD: "callbacks_only w key \<Longrightarrow> \<exists>ls. listeners_of w key = map Callback ls"
proof -
  have "list_all (\<lambda>f. case f of Callback i \<Rightarrow> True | _ \<Rightarrow> False) fs \<Longrightarrow> \<exists>ls. fs = map Callback ls" for fs
  proof (induction fs)
    case Nil
    then show ?case by simp
  next
    case (Cons f fs)
    then obtain ls where "fs = map Callback ls" by auto
    moreover from Cons.prems obtain i where "f = Callback i" by (cases f) auto
    ultimately have "f # fs = map Callback (i # ls)" by simp
    then show ?case ..
  qed
  then show "callbacks_only w key \<Longrightarrow> \<exists>ls. listeners_of w key = map Callback ls"
    by (simp add: callbacks_only_def)
qed

text \<open>
  C1, store fan-out. Let the listeners \<open>L1..Ln\<close> be registered for a key in that order,
  none of them throwing on \<open>v\<close>. Then \<open>set(k, v)\<close> returns normally and calls each of them
  once with \<open>v\<close>, in registration order and nothing else; and when one of them is
  removed with \<open>removeOnChange\<close> before the call, exactly the others are called.
\<close>

theorem store_fan_out:
  assumes "key \<notin> set object_prototype_keys"
    and "store_listeners w0 key = None"
    and "w = snd (onChange_each key (map Callback ls) w0)"
    and "\<forall>i\<in>set ls. \<not> throws w0 i v"
  shows "fst (store_set (Suc n) key v w) = None \<and>
         calls (snd (store_set (Suc n) key v w)) = calls w0 @ map (\<lambda>i. (i, v)) ls \<and>
         (\<forall>l. calls (snd (store_set (Suc n) key v (snd (removeOnChange key (Callback l) w)))) =
               calls w0 @ map (\<lambda>i. (i, v)) (filter (\<lambda>i. i \<noteq> l) ls))"
proof -
  obtain e where reg: "onChange_each key (map Callback ls) w0 = (e, w)"
    using assms(3) by (metis prod.collapse)
  from onChange_each_plain[OF assms(1) reg] assms(2)
  have w: "listeners_of w key = map Callback ls" "throws w = throws w0" "calls w = calls w0"
    by (simp_all add: listeners_of_def)
  have nothrow: "\<forall>i\<in>set ls. \<not> throws (w\<lparr>store_data := (store_data w)(key \<mapsto> v)\<rparr>) i v"
    using assms(4) w(2) by simp
  have a: "store_set (Suc n) key v w =
      (None, w\<lparr>store_data := (store_data w)(key \<mapsto> v), calls := calls w0 @ map (\<lambda>i. (i, v)) ls\<rparr>)"
    using forEach_callbacks[OF nothrow, of n] w by (simp add: store_set_plain[OF assms(1)] del: store_set.simps)
  have b: "calls (snd (store_set (Suc n) key v (snd (removeOnChange key (Callback l) w)))) =
               calls w0 @ map (\<lambda>i. (i, v)) (filter (\<lambda>i. i \<noteq> l) ls)" for l
  proof -
    define w' where "w' = snd (removeOnChange key (Callback l) w)"
    have l': "listeners_of w' key = map Callback (filter (\<lambda>i. i \<noteq> l) ls)"
      using w(1) assms(1)
      by (auto simp: w'_def removeOnChange_def listeners_lookup_def listeners_of_def filter_map comp_def
          split: option.splits)
    have f': "throws w' = throws w0" "calls w' = calls w0"
      using w(2,3) by (auto simp: w'_def removeOnChange_def split: option.splits sum.splits)
    have nothrow': "\<forall>i\<in>set (filter (\<lambda>i. i \<noteq> l) ls). \<not> throws (w'\<lparr>store_data := (store_data w')(key \<mapsto> v)\<rparr>) i v"
      using assms(4) f'(1) by simp
    show ?thesis
      unfolding w'_def[symmetric]
      using forEach_callbacks[OF nothrow', of n] l' f' by (simp add: store_set_plain[OF assms(1)] del: store_set.simps)
  qed
  from a b show ?thesis by simp
qed

theorem store_fan_out_witness:
  "fst (store_set 1 ''k'' (Num 7) (snd (onChange_each ''k'' (map Callback [1, 2, 3]) world0))) = None \<and>
   calls (snd (store_set 1 ''k'' (Num 7) (snd (onChange_each ''k'' (map Callback [1, 2, 3]) world0)))) =
     [(1, Num 7), (2, Num 7), (3, Num 7)] \<and>
   calls (snd (store_set 1 ''k'' (Num 7)
     (snd (removeOnChange ''k'' (Callback 2) (snd (onChange_each ''k'' (map Callback [1, 2, 3]) world0)))))) =
     [(1, Num 7), (3, Num 7)]"
proof -
  have h1: "''k'' \<notin> set object_prototype_keys" by (simp add: object_prototype_keys_def)
  have h2: "store_listeners world0 ''k'' = None" by (simp add: world0_def)
  have h4: "\<forall>i\<in>set [1, 2, 3]. \<not> throws world0 i (Num 7)" by (simp add: world0_def)
  from store_fan_out[OF h1 h2 refl h4, of 0]
  have "fst (store_set 1 ''k'' (Num 7) (snd (onChange_each ''k'' (map Callback [1, 2, 3]) world0))) = None \<and>
   calls (snd (store_set 1 ''k'' (Num 7) (snd (onChange_each ''k'' (map Callback [1, 2, 3]) world0)))) =
     calls world0 @ map (\<lambda>i. (i, Num 7)) [1, 2, 3] \<and>
   calls (snd (store_set 1 ''k'' (Num 7)
     (snd (removeOnChange ''k'' (Callback 2) (snd (onChange_each ''k'' (map Callback [1, 2, 3]) world0)))))) =
     calls world0 @ map (\<lambda>i. (i, Num 7)) (filter (\<lambda>i. i \<noteq> 2) [1, 2, 3])"
    by simp
  then show ?thesis by (simp add: world0_def)
qed

subsection \<open>Store: a listener that throws\<close>

text \<open>
  C2 as stated, refuted. \<open>set\<close> has no \<open>try\<close>: with two listeners on a key of which the
  first throws, the exception leaves \<open>set\<close> and the second listener is never called.
\<close>

theorem listener_isolation_counterexample:
  "fst (store_set 1 ''k'' (Num 7) world_throwing) = Some (Thrown 1) \<and>
   calls (snd (store_set 1 ''k'' (Num 7) world_throwing)) = [(1, Num 7)]"
  by (simp add: world_throwing_def world0_def listeners_lookup_def object_prototype_keys_def)

text \<open>
  C2, amended. When a listener of the key throws during \<open>set(k, v)\<close>, the value has
  been stored, the listeners registered before it and the thrower itself have been
  called once each, the exception propagates out of \<open>set\<close>, and the listeners
  registered after it are not called.
\<close>

theorem listener_exception_propagates:
  assumes "key \<notin> set object_prototype_keys"
    and "listeners_of w key = map Callback (pre @ t # post)"
    and "\<forall>i\<in>set pre. \<not> throws w i v"
    and "throws w t v"
  shows "store_set (Suc n) key v w =
     (Some (Thrown t),
      w\<lparr>store_data := (store_data w)(key \<mapsto> v), calls := calls w @ map (\<lambda>i. (i, v)) (pre @ [t])\<rparr>)"
proof -
  let ?w' = "w\<lparr>store_data := (store_data w)(key \<mapsto> v)\<rparr>"
  have a: "\<forall>i\<in>set pre. \<not> throws ?w' i v" using assms(3) by simp
  have b: "throws ?w' t v" using assms(4) by simp
  show ?thesis
    using forEach_thrower[OF a b, of n post] assms(2)
    by (simp add: store_set_plain[OF assms(1)] del: store_set.simps)
qed

theorem listener_exception_propagates_witness:
  "store_set 1 ''k'' (Num 7) world_throwing =
     (Some (Thrown 1),
      world_throwing\<lparr>store_data := (store_data world_throwing)(''k'' \<mapsto> Num 7),
        calls := [(1, Num 7)]\<rparr>)"
proof -
  have h1: "''k'' \<notin> set object_prototype_keys" by (simp add: object_prototype_keys_def)
  have h2: "listeners_of world_throwing ''k'' = map Callback ([] @ 1 # [2])"
    by (simp add: world_throwing_def listeners_of_def)
  have h3: "\<forall>i\<in>set []. \<not> throws world_throwing i (Num 7)" by simp
  have h4: "throws world_throwing 1 (Num 7)" by (simp add: world_throwing_def)
  have c: "calls world_throwing = []" by (simp add: world_throwing_def world0_def)
  from listener_exception_propagates[OF h1 h2 h3 h4, of 0] show ?thesis
    by (simp add: c del: store_set.simps)
qed

subsection \<open>Store: reading a key\<close>

text \<open>
  C3 as stated, refuted: after \<open>set(k, null)\<close> the key has been set and \<open>get(k)\<close> still
  raises, instead of returning the value.
\<close>

theorem missing_key_counterexample:
  "store_get ''k'' (snd (store_set 1 ''k'' Null world0)) = Inl (EmptyKey ''k'')"
  by (simp add: world0_def listeners_lookup_def object_prototype_keys_def store_get_def
      data_lookup_def nullish_def)

text \<open>
  A key that names a member of \<open>Object.prototype\<close> reads as that member without ever
  having been set, and \<open>set\<close> on it stores the value and then fails on the listener
  array.
\<close>

lemma store_get_inherited:
  "store_get ''toString'' world0 = Inr (Member ''toString'')"
  by (simp add: store_get_def data_lookup_def object_prototype_get_def nullish_def world0_def
      object_prototype_keys_def)

lemma store_set_inherited:
  "fst (store_set (Suc n) ''toString'' v w) = Some TypeError \<and>
   store_data (snd (store_set (Suc n) ''toString'' v w)) ''toString'' = Some v"
  by (simp add: listeners_lookup_def object_prototype_keys_def)

text \<open>
  The key \<open>__proto__\<close> is not a dictionary entry. On a new store, setting it to a
  string stores nothing, and the key still reads as \<open>Object.prototype\<close>; setting it to
  an object makes the members of that object readable under keys never set; setting
  it to \<open>null\<close> removes the inherited members, so that \<open>toString\<close> reads as a missing
  key. The call of \<open>set\<close> itself fails, after the assignment, on the listener array.
\<close>

lemma proto_key_ignored:
  "store_set 1 ''__proto__'' (Str ''v'') world0 = (Some TypeError, world0) \<and>
   store_get ''__proto__'' world0 = Inr (Member ''__proto__'')"
  by (simp add: data_assign_def reaches_proto_setter_def listeners_lookup_def store_get_def
      data_lookup_def object_prototype_get_def nullish_def world0_def object_prototype_keys_def)

lemma proto_key_replaces_prototype:
  "store_get ''a'' (snd (store_set 1 ''__proto__'' (Obj [(''a'', Num 1)]) world0)) =
     Inr (Value (Num 1)) \<and>
   store_get ''toString'' (snd (store_set 1 ''__proto__'' Null world0)) =
     Inl (EmptyKey ''toString'')"
  by (simp add: data_assign_def reaches_proto_setter_def listeners_lookup_def store_get_def
      data_lookup_def object_prototype_get_def nullish_def world0_def object_prototype_keys_def)

lemma store_set_callbacks_data:
  assumes "callbacks_only w key" and "key \<noteq> ''__proto__''"
  shows "store_data (snd (store_set (Suc n) key v w)) = (store_data w)(key \<mapsto> v)"
proof -
  let ?w' = "w\<lparr>store_data := (store_data w)(key \<mapsto> v)\<rparr>"
  obtain ls where ls: "listeners_of w key = map Callback ls"
    using callbacks_onlyD[OF assms(1)] by blast
  show ?thesis
  proof (cases "key \<in> set object_prototype_keys")
    case True
    then show ?thesis using assms(2) by (simp add: listeners_lookup_def)
  next
    case False
    obtain e w2 where r: "forEach n (map Callback ls) v ?w' = (e, w2)" by (metis prod.collapse)
    from forEach_callbacks_data[OF r] r ls show ?thesis
      by (simp add: store_set_plain[OF False] del: store_set.simps)
  qed
qed

text \<open>
  C3, amended. \<open>get(k)\<close> raises the empty-key error exactly when the value read under
  \<open>k\<close> is \<open>null\<close> or \<open>undefined\<close>, and returns that value otherwise. So it raises for
  a key never set that is not a member of \<open>Object.prototype\<close>, in a store whose
  prototype has not been replaced through the key \<open>__proto__\<close>; and after
  \<open>set(k, v)\<close>, for a key \<open>k\<close> other than \<open>__proto__\<close> whose listeners are user
  callbacks, \<open>get(k)\<close> returns \<open>v\<close> for every \<open>v\<close> other than \<open>null\<close> and \<open>undefined\<close>
  (the falsy \<open>0\<close>, \<open>false\<close> and \<open>""\<close> included) and raises for those two.
\<close>

theorem store_get_missing_key:
  assumes "callbacks_only w key" and "key \<noteq> ''__proto__''"
  shows "(store_get key w = Inl (EmptyKey key)) = nullish (data_lookup w key) \<and>
         (\<not> nullish (data_lookup w key) \<longrightarrow> store_get key w = Inr (data_lookup w key)) \<and>
         (store_data w key = None \<and> key \<notin> set object_prototype_keys \<and>
          data_proto w = ObjectPrototype \<longrightarrow>
            store_get key w = Inl (EmptyKey key)) \<and>
         store_get key (snd (store_set (Suc n) key v w)) =
           (if v = Undefined \<or> v = Null then Inl (EmptyKey key) else Inr (Value v))"
  using store_set_callbacks_data[OF assms, of n v] assms(2)
  by (simp add: store_get_def data_lookup_def object_prototype_get_def nullish_def
      del: store_set.simps)

theorem store_get_missing_key_witness:
  "store_get ''k'' world0 = Inl (EmptyKey ''k'') \<and>
   store_get ''k'' (snd (store_set 1 ''k'' (Num 0) world0)) = Inr (Value (Num 0)) \<and>
   store_get ''k'' (snd (store_set 1 ''k'' (Boolean False) world0)) = Inr (Value (Boolean False)) \<and>
   store_get ''k'' (snd (store_set 1 ''k'' (Str []) world0)) = Inr (Value (Str [])) \<and>
   store_get ''k'' (snd (store_set 1 ''k'' Undefined world0)) = Inl (EmptyKey ''k'')"
proof -
  have h: "callbacks_only world0 ''k''" by (simp add: callbacks_only_def listeners_of_def world0_def)
  have k: "''k'' \<noteq> ''__proto__''" by simp
  have d: "store_data world0 ''k'' = None \<and> ''k'' \<notin> set object_prototype_keys \<and>
      data_proto world0 = ObjectPrototype"
    by (simp add: world0_def object_prototype_keys_def)
  from store_get_missing_key[OF h k, of 0 "Num 0"] store_get_missing_key[OF h k, of 0 "Boolean False"]
    store_get_missing_key[OF h k, of 0 "Str []"] store_get_missing_key[OF h k, of 0 Undefined] d
  show ?thesis by (simp del: store_set.simps)
qed

subsection \<open>Scheduler: task names\<close>

lemma shrinks_refl: "shrinks s s"
proof -
  have "tasks s = filter (\<lambda>r. True) (tasks s)" by simp
  then show ?thesis unfolding shrinks_def by blast
qed

lemma shrinks_trans:
  assumes "shrinks s s'" and "shrinks s' s''"
  shows "shrinks s s''"
proof -
  from assms obtain P Q where "tasks s' = filter P (tasks s)" "tasks s'' = filter Q (tasks s')"
    unfolding shrinks_def by blast
  then have "tasks s'' = filter (\<lambda>r. P r \<and> Q r) (tasks s)" by simp
  then have "\<exists>R. tasks s'' = filter R (tasks s)" by blast
  with assms show ?thesis unfolding shrinks_def by simp
qed

lemma shrinks_inv:
  assumes "shrinks s s'" and "sched_inv s"
  shows "sched_inv s'"
proof -
  from assms(1) obtain P where P: "tasks s' = filter P (tasks s)"
    and n: "next_ref s' = next_ref s"
    and h: "\<And>r. task_name (heap s' r) = task_name (heap s r)"
    unfolding shrinks_def by blast
  have "names_of s' = map (\<lambda>r. task_name (heap s r)) (filter P (tasks s))"
    by (simp add: names_of_def P h)
  moreover have "distinct (map (\<lambda>r. task_name (heap s r)) (tasks s))"
    using assms(2) by (simp add: sched_inv_def names_of_def)
  ultimately have "distinct (names_of s')" by (simp add: distinct_map_filter)
  moreover have "\<forall>r\<in>set (tasks s'). r < next_ref s'"
    using assms(2) by (simp add: sched_inv_def P n)
  ultimately show ?thesis by (simp add: sched_inv_def)
qed

lemma shrinks_remove: "shrinks s (remove name s)"
  unfolding shrinks_def remove_def by auto

lemma names_of_remove: "names_of (remove name s) = filter (\<lambda>n. n \<noteq> name) (names_of s)"
  by (simp add: names_of_def remove_def filter_map comp_def)

lemma names_of_push:
  assumes "\<forall>r\<in>set (tasks s). r < next_ref s"
  shows "names_of (push t s) = names_of s @ [task_name t]"
  using assms by (auto simp: names_of_def push_def)

lemma push_inv:
  assumes "sched_inv s" and "task_name t \<notin> set (names_of s)"
  shows "sched_inv (push t s)"
proof -
  from assms(1) have b: "\<forall>r\<in>set (tasks s). r < next_ref s" by (simp add: sched_inv_def)
  have "distinct (names_of (push t s))"
    using assms by (simp add: names_of_push[OF b] sched_inv_def)
  moreover have "\<forall>r\<in>set (tasks (push t s)). r < next_ref (push t s)"
    using b by (auto simp: push_def)
  ultimately show ?thesis by (simp add: sched_inv_def)
qed

lemma remove_inv: "sched_inv s \<Longrightarrow> sched_inv (remove name s)"
  using shrinks_inv[OF shrinks_remove] .

lemma names_after_replace:
  assumes "sched_inv s" and "task_name t = name"
  shows "sched_inv (push t (remove name s))"
    and "names_of (push t (remove name s)) = filter (\<lambda>n. n \<noteq> name) (names_of s) @ [name]"
    and "heap (push t (remove name s)) (last (tasks (push t (remove name s)))) = t"
proof -
  have i: "sched_inv (remove name s)" using assms(1) by (rule remove_inv)
  then have b: "\<forall>r\<in>set (tasks (remove name s)). r < next_ref (remove name s)"
    by (simp add: sched_inv_def)
  have "task_name t \<notin> set (names_of (remove name s))"
    by (simp add: names_of_remove assms(2))
  then show "sched_inv (push t (remove name s))" using i by (rule push_inv[rotated])
  show "names_of (push t (remove name s)) = filter (\<lambda>n. n \<noteq> name) (names_of s) @ [name]"
    by (simp add: names_of_push[OF b] names_of_remove assms(2))
  show "heap (push t (remove name s)) (last (tasks (push t (remove name s)))) = t"
    by (simp add: push_def)
qed

lemma task_name_ScheduledTask [simp]:
  "task_name (ScheduledTask name d n f chs clock) = name"
  by (simp add: ScheduledTask_def)

lemma task_name_AnimationTask [simp]:
  "task_name (AnimationTask name a b c d f chs t0 clock) = name"
  by (simp add: AnimationTask_def)

lemma task_name_run [simp]: "task_name (fst (run r t now)) = task_name t"
  by (simp add: run_def run_plain_def run_anim_def Let_def split: option.splits)

lemma task_name_notifyPaused [simp]: "task_name (notifyPaused t now) = task_name t"
  by (simp add: notifyPaused_def)

lemma task_name_notifyResumed [simp]: "task_name (notifyResumed t now) = task_name t"
  by (simp add: notifyResumed_def split: option.splits)

lemma shrinks_loop_body: "shrinks s (loop_body now r s)"
proof -
  obtain t' act ev where r: "run r (heap s r) now = (t', act, ev)" by (metis prod_cases3)
  then have n: "task_name t' = task_name (heap s r)" using task_name_run[of r "heap s r" now] by simp
  let ?s1 = "s\<lparr>heap := (heap s)(r := t'), trace := trace s @ [ev]\<rparr>"
  have a: "shrinks s ?s1" using n unfolding shrinks_def
    by (auto intro: exI[of _ "\<lambda>r. True"])
  have b: "shrinks s (remove (task_name t') ?s1)"
    using shrinks_trans[OF a shrinks_remove] .
  show ?thesis
    using a b shrinks_refl[of s] by (simp add: loop_body_def Let_def r)
qed

lemma shrinks_for_tasks: "shrinks s (for_tasks now rs s)"
proof (induction rs arbitrary: s)
  case Nil
  show ?case by (simp add: shrinks_refl)
next
  case (Cons r rs)
  show ?case using shrinks_trans[OF shrinks_loop_body Cons.IH] by simp
qed

lemma shrinks_loop: "shrinks s (loop now s)"
proof -
  have "shrinks s (s\<lparr>sched_now := now\<rparr>)"
    unfolding shrinks_def by (auto intro: exI[of _ "\<lambda>r. True"])
  from shrinks_trans[OF this shrinks_for_tasks] show ?thesis
    by (simp add: loop_def Let_def shrinks_refl)
qed

lemma shrinks_notify_each:
  assumes "\<And>t now. task_name (notify t now) = task_name t"
  shows "shrinks s (notify_each notify channel rs s)"
proof (induction rs arbitrary: s)
  case Nil
  show ?case by (simp add: shrinks_refl)
next
  case (Cons r rs)
  have "shrinks s (s\<lparr>heap := (heap s)(r := notify (heap s r) (sched_now s))\<rparr>)"
    unfolding shrinks_def using assms by (auto intro: exI[of _ "\<lambda>r. True"])
  from shrinks_trans[OF this Cons.IH] Cons.IH[of s] show ?case by simp
qed

lemma shrinks_start: "shrinks s (start s)"
  unfolding shrinks_def start_def by (auto intro: exI[of _ "\<lambda>r. True"])

lemma shrinks_pause: "shrinks s (pause channel s)"
proof -
  have "shrinks s (s\<lparr>pausedChannels := insert channel (pausedChannels s)\<rparr>)"
    unfolding shrinks_def by (auto intro: exI[of _ "\<lambda>r. True"])
  from shrinks_trans[OF this shrinks_notify_each[of notifyPaused]] show ?thesis
    by (simp add: pause_def Let_def)
qed

lemma shrinks_resume: "shrinks s (resume channel s)"
proof -
  have "shrinks s (s\<lparr>pausedChannels := pausedChannels s - {channel}\<rparr>)"
    unfolding shrinks_def by (auto intro: exI[of _ "\<lambda>r. True"])
  from shrinks_trans[OF this shrinks_notify_each[of notifyResumed]]
  have a: "shrinks s (notify_each notifyResumed channel (tasks s)
      (s\<lparr>pausedChannels := pausedChannels s - {channel}\<rparr>))" by simp
  from a shrinks_trans[OF a shrinks_start] show ?thesis
    by (simp add: resume_def Let_def)
qed

lemma shrinks_stop: "shrinks s (stop channel s)"
proof (cases channel)
  case None
  have "tasks (stop None s) = filter (\<lambda>r. False) (tasks s)" by (simp add: stop_def)
  then have "\<exists>P. tasks (stop None s) = filter P (tasks s)"
    by (rule exI[of _ "\<lambda>r. False"])
  then show ?thesis unfolding shrinks_def None by (simp add: stop_def)
next
  case (Some c)
  then show ?thesis unfolding shrinks_def by (auto simp: stop_def)
qed

lemma perform_inv: "sched_inv s \<Longrightarrow> sched_inv (perform s x)"
proof (cases x)
  case (Add name d n f chs clock)
  assume "sched_inv s"
  from names_after_replace(1)[OF this, of _ name] show ?thesis by (simp add: Add add_def)
next
  case (AddAnim name a b c d f chs t0 clock)
  assume "sched_inv s"
  from names_after_replace(1)[OF this, of _ name] show ?thesis by (simp add: AddAnim addAnim_def)
qed (auto intro: shrinks_inv shrinks_remove shrinks_start shrinks_loop shrinks_pause
      shrinks_resume shrinks_stop)

lemma TaskScheduler_inv: "sched_inv TaskScheduler"
  by (simp add: sched_inv_def TaskScheduler_def names_of_def)

lemma foldl_perform_inv: "sched_inv s \<Longrightarrow> sched_inv (foldl perform s ops)"
  by (induction ops arbitrary: s) (auto intro: perform_inv)

text \<open>
  C4, task-name uniqueness. After any sequence of scheduler operations (\<open>add\<close>,
  \<open>addAnim\<close> and \<open>remove\<close>, and also \<open>start\<close>, frames, \<open>pause\<close>, \<open>resume\<close> and \<open>stop\<close>)
  on a new scheduler, no two scheduled tasks have the same name. Adding a task,
  plain or animation, then leaves exactly one task of its name in the list, and it is
  the task just constructed, at the end of the list.
\<close>

theorem task_names_unique:
  fixes ops :: "sched_op list"
  defines "s \<equiv> foldl perform TaskScheduler ops"
  shows "distinct (names_of s) \<and>
   filter (\<lambda>n. n = name) (names_of (add name d n f chs clock s)) = [name] \<and>
   heap (add name d n f chs clock s) (last (tasks (add name d n f chs clock s))) =
     ScheduledTask name d n f chs clock \<and>
   filter (\<lambda>n. n = name) (names_of (addAnim name a b c du f chs t0 clock s)) = [name] \<and>
   heap (addAnim name a b c du f chs t0 clock s)
       (last (tasks (addAnim name a b c du f chs t0 clock s))) =
     AnimationTask name a b c du f chs t0 clock"
proof -
  have i: "sched_inv s" unfolding s_def using TaskScheduler_inv by (rule foldl_perform_inv)
  have e: "filter (\<lambda>n. n = name) (filter (\<lambda>n. n \<noteq> name) xs @ [name]) = [name]" for xs :: "string list"
    by (induction xs) auto
  have "distinct (names_of s)" using i by (simp add: sched_inv_def)
  moreover have "filter (\<lambda>n. n = name) (names_of (add name d n f chs clock s)) = [name]"
    using names_after_replace(2)[OF i, of _ name] e by (simp add: add_def)
  moreover have "filter (\<lambda>n. n = name) (names_of (addAnim name a b c du f chs t0 clock s)) = [name]"
    using names_after_replace(2)[OF i, of _ name] e by (simp add: addAnim_def)
  moreover have "heap (add name d n f chs clock s) (last (tasks (add name d n f chs clock s))) =
     ScheduledTask name d n f chs clock"
    using names_after_replace(3)[OF i, of _ name] by (simp add: add_def)
  moreover have "heap (addAnim name a b c du f chs t0 clock s)
       (last (tasks (addAnim name a b c du f chs t0 clock s))) =
     AnimationTask name a b c du f chs t0 clock"
    using names_after_replace(3)[OF i, of _ name] by (simp add: addAnim_def)
  ultimately show ?thesis by simp
qed

theorem task_names_unique_witness:
  "names_of (add ''a'' 10 3 7 [''global''] 2
     (foldl perform TaskScheduler
        [Add ''a'' 0 1 0 [''global''] 0, Add ''b'' 5 INFINITE 1 [''render''] 1])) = [''b'', ''a''] \<and>
   filter (\<lambda>n. n = ''a'') (names_of (add ''a'' 10 3 7 [''global''] 2
     (foldl perform TaskScheduler
        [Add ''a'' 0 1 0 [''global''] 0, Add ''b'' 5 INFINITE 1 [''render''] 1]))) = [''a'']"
proof -
  have "names_of (add ''a'' 10 3 7 [''global''] 2
     (foldl perform TaskScheduler
        [Add ''a'' 0 1 0 [''global''] 0, Add ''b'' 5 INFINITE 1 [''render''] 1])) = [''b'', ''a'']"
    by (simp add: add_def push_def remove_def TaskScheduler_def ScheduledTask_def names_of_def)
  with task_names_unique[of "[Add ''a'' 0 1 0 [''global''] 0, Add ''b'' 5 INFINITE 1 [''render''] 1]"
      "''a''" 10 3 7 "[''global'']" 2]
  show ?thesis by blast
qed

subsection \<open>Scheduler: the effect of a frame on one task\<close>

lemma event_task_run: "run r t now = (t', act, ev) \<Longrightarrow> event_task ev = r"
  by (auto simp: run_def run_plain_def run_anim_def Let_def split: option.splits)

lemma shrinks_absent: "shrinks s s' \<Longrightarrow> r \<notin> set (tasks s) \<Longrightarrow> r \<notin> set (tasks s')"
  unfolding shrinks_def by auto

lemma loop_body_globals:
  "pausedChannels (loop_body now r s) = pausedChannels s \<and>
   running (loop_body now r s) = running s \<and>
   sched_now (loop_body now r s) = sched_now s"
  by (simp add: loop_body_def Let_def remove_def split: prod.splits)

lemma for_tasks_globals:
  "pausedChannels (for_tasks now rs s) = pausedChannels s \<and>
   running (for_tasks now rs s) = running s \<and>
   sched_now (for_tasks now rs s) = sched_now s"
  by (induction rs arbitrary: s) (simp_all add: loop_body_globals)

lemma loop_body_other:
  assumes "r' \<noteq> r"
  shows "heap (loop_body now r' s) r = heap s r"
    and "events_of r (trace (loop_body now r' s)) = events_of r (trace s)"
proof -
  obtain t' act ev where run: "run r' (heap s r') now = (t', act, ev)" by (metis prod_cases3)
  from event_task_run[OF run] assms have ev: "event_task ev \<noteq> r" by simp
  show "heap (loop_body now r' s) r = heap s r"
    using assms by (simp add: loop_body_def Let_def run remove_def)
  show "events_of r (trace (loop_body now r' s)) = events_of r (trace s)"
    using ev by (simp add: loop_body_def Let_def run remove_def events_of_def)
qed

lemma for_tasks_other:
  "r \<notin> set rs \<Longrightarrow>
   heap (for_tasks now rs s) r = heap s r \<and>
   events_of r (trace (for_tasks now rs s)) = events_of r (trace s)"
proof (induction rs arbitrary: s)
  case Nil
  show ?case by simp
next
  case (Cons r' rs)
  then have "r' \<noteq> r" "r \<notin> set rs" by auto
  from Cons.IH[OF this(2), of "loop_body now r' s"] loop_body_other[OF this(1), of now s]
  show ?case by simp
qed

lemma loop_body_keeps:
  assumes "r \<in> set (tasks s)" and "task_name (heap s r') \<noteq> task_name (heap s r)"
  shows "r \<in> set (tasks (loop_body now r' s))"
proof -
  obtain t' act ev where run: "run r' (heap s r') now = (t', act, ev)" by (metis prod_cases3)
  then have n: "task_name t' = task_name (heap s r')"
    using task_name_run[of r' "heap s r'" now] by simp
  from assms(2) have "r' \<noteq> r" by auto
  then show ?thesis
    using assms n by (simp add: loop_body_def Let_def run remove_def)
qed

lemma shrinks_names: "shrinks s s' \<Longrightarrow> task_name (heap s' q) = task_name (heap s q)"
  unfolding shrinks_def by simp

lemma for_tasks_keeps:
  "r \<in> set (tasks s) \<Longrightarrow> \<forall>r'\<in>set rs. task_name (heap s r') \<noteq> task_name (heap s r) \<Longrightarrow>
   r \<in> set (tasks (for_tasks now rs s))"
proof (induction rs arbitrary: s)
  case Nil
  then show ?case by simp
next
  case (Cons r' rs)
  let ?s = "loop_body now r' s"
  have k: "r \<in> set (tasks ?s)" using Cons.prems by (simp add: loop_body_keeps)
  have "\<forall>q\<in>set rs. task_name (heap ?s q) \<noteq> task_name (heap ?s r)"
    using Cons.prems(2) by (simp add: shrinks_names[OF shrinks_loop_body])
  from Cons.IH[OF k this] show ?case by simp
qed

lemma for_tasks_append: "for_tasks now (xs @ ys) s = for_tasks now ys (for_tasks now xs s)"
  by (induction xs arbitrary: s) simp_all

lemma view_loop_body:
  assumes "r \<in> set (tasks s)"
  shows "view r (loop_body now r s) = task_frame r (pausedChannels s) now (view r s)"
proof -
  obtain t' act ev where run: "run r (heap s r) now = (t', act, ev)" by (metis prod_cases3)
  from event_task_run[OF run] have ev: "event_task ev = r" .
  show ?thesis
    using assms ev
    by (simp add: view_def task_frame_def loop_body_def Let_def run remove_def events_of_def)
qed

lemma distinct_names_split:
  assumes "sched_inv s" and "tasks s = pre @ r # post"
  shows "r \<notin> set pre" and "r \<notin> set post"
    and "\<forall>q\<in>set pre. task_name (heap s q) \<noteq> task_name (heap s r)"
    and "\<forall>q\<in>set post. task_name (heap s q) \<noteq> task_name (heap s r)"
proof -
  let ?f = "\<lambda>q. task_name (heap s q)"
  from assms have d: "distinct (map ?f pre @ ?f r # map ?f post)"
    by (simp add: sched_inv_def names_of_def)
  then have a: "?f r \<notin> set (map ?f pre)" and b: "?f r \<notin> set (map ?f post)"
    by simp_all
  from a show c: "\<forall>q\<in>set pre. task_name (heap s q) \<noteq> task_name (heap s r)"
    by (auto simp: image_iff)
  from b show e: "\<forall>q\<in>set post. task_name (heap s q) \<noteq> task_name (heap s r)"
    by (auto simp: image_iff)
  from c show "r \<notin> set pre" by blast
  from e show "r \<notin> set post" by blast
qed

lemma view_for_tasks:
  assumes "sched_inv s"
  shows "view r (for_tasks now (tasks s) s) = task_frame r (pausedChannels s) now (view r s)"
proof (cases "r \<in> set (tasks s)")
  case False
  from shrinks_absent[OF shrinks_for_tasks False] for_tasks_other[OF False] False
  show ?thesis by (simp add: view_def task_frame_def)
next
  case True
  then obtain pre post where sp: "tasks s = pre @ r # post" by (meson split_list)
  note d = distinct_names_split[OF assms sp]
  let ?sa = "for_tasks now pre s"
  let ?sb = "loop_body now r ?sa"
  let ?sc = "for_tasks now post ?sb"
  have sc: "for_tasks now (tasks s) s = ?sc" by (simp add: sp for_tasks_append)
  have a: "heap ?sa r = heap s r" "events_of r (trace ?sa) = events_of r (trace s)"
    using for_tasks_other[OF d(1)] by simp_all
  have a': "r \<in> set (tasks ?sa)" using True d(3) by (rule for_tasks_keeps)
  have ap: "pausedChannels ?sa = pausedChannels s" by (simp add: for_tasks_globals)
  have va: "view r ?sa = view r s" using a a' True by (simp add: view_def)
  have vb: "view r ?sb = task_frame r (pausedChannels s) now (view r s)"
    using view_loop_body[OF a', of now] by (simp add: ap va)
  have c: "heap ?sc r = heap ?sb r" "events_of r (trace ?sc) = events_of r (trace ?sb)"
    using for_tasks_other[OF d(2)] by simp_all
  have names: "task_name (heap ?sb q) = task_name (heap s q)" for q
    using shrinks_names[OF shrinks_trans[OF shrinks_for_tasks shrinks_loop_body]] by simp
  have m: "r \<in> set (tasks ?sc) \<longleftrightarrow> r \<in> set (tasks ?sb)"
  proof
    assume "r \<in> set (tasks ?sc)"
    then show "r \<in> set (tasks ?sb)" using shrinks_absent[OF shrinks_for_tasks] by blast
  next
    assume b: "r \<in> set (tasks ?sb)"
    have "\<forall>q\<in>set post. task_name (heap ?sb q) \<noteq> task_name (heap ?sb r)"
      using d(4) by (simp add: names)
    with b show "r \<in> set (tasks ?sc)" by (rule for_tasks_keeps)
  qed
  have "view r ?sc = view r ?sb" using c m by (simp add: view_def)
  with vb sc show ?thesis by simp
qed

lemma sched_inv_now: "sched_inv (s\<lparr>sched_now := now\<rparr>) = sched_inv s"
  by (simp add: sched_inv_def names_of_def)

lemma view_loop:
  assumes "sched_inv s" and "running s"
  shows "view r (loop now s) = task_frame r (pausedChannels s) now (view r s)"
proof -
  let ?s1 = "s\<lparr>sched_now := now\<rparr>"
  have i: "sched_inv ?s1" using assms(1) by (simp add: sched_inv_now)
  have "view r ?s1 = view r s" by (simp add: view_def)
  with view_for_tasks[OF i, of r now] assms(2) show ?thesis
    by (simp add: loop_def Let_def)
qed

lemma loop_globals:
  "pausedChannels (loop now s) = pausedChannels s \<and> running (loop now s) = running s \<and>
   sched_now (loop now s) = (if running s then now else sched_now s)"
  by (simp add: loop_def Let_def for_tasks_globals)

lemma loop_inv: "sched_inv s \<Longrightarrow> sched_inv (loop now s)"
  using shrinks_inv[OF shrinks_loop] .

lemma view_frames:
  assumes "sched_inv s" and "running s"
  shows "view r (frames ts s) = foldl (\<lambda>v now. task_frame r (pausedChannels s) now v) (view r s) ts"
  using assms
proof (induction ts arbitrary: s)
  case Nil
  show ?case by simp
next
  case (Cons now ts)
  have "view r (frames ts (loop now s)) =
      foldl (\<lambda>v now'. task_frame r (pausedChannels (loop now s)) now' v) (view r (loop now s)) ts"
    using Cons.prems by (intro Cons.IH loop_inv) (simp_all add: loop_globals)
  then show ?case using Cons.prems by (simp add: loop_globals view_loop)
qed

lemma frames_globals:
  "pausedChannels (frames ts s) = pausedChannels s \<and> running (frames ts s) = running s \<and>
   sched_now (frames ts s) = (if running s \<and> ts \<noteq> [] then last ts else sched_now s)"
  by (induction ts arbitrary: s) (auto simp: loop_globals)

lemma frames_inv: "sched_inv s \<Longrightarrow> sched_inv (frames ts s)"
  by (induction ts arbitrary: s) (auto intro: loop_inv)

subsection \<open>Scheduler: pause and resume\<close>

lemma frames_stopped: "\<not> running s \<Longrightarrow> frames ts s = s"
  by (induction ts) (simp_all add: loop_def)

lemma notify_each_fields:
  "tasks (notify_each notify c rs s) = tasks s \<and>
   pausedChannels (notify_each notify c rs s) = pausedChannels s \<and>
   running (notify_each notify c rs s) = running s \<and>
   sched_now (notify_each notify c rs s) = sched_now s \<and>
   trace (notify_each notify c rs s) = trace s \<and>
   next_ref (notify_each notify c rs s) = next_ref s"
  by (induction rs arbitrary: s) simp_all








lemma task_frame_paused:
  "c \<in> set (channels t) \<Longrightarrow> c \<in> paused \<Longrightarrow>
   foldl (\<lambda>v now. task_frame r paused now v) (t, b, evs) ts = (t, b, evs)"
proof (induction ts)
  case Nil
  show ?case by simp
next
  case (Cons now ts)
  from Cons.prems have "list_ex (\<lambda>ch. ch \<in> paused) (channels t)"
    by (auto simp: list_ex_iff)
  then have "task_frame r paused now (t, b, evs) = (t, b, evs)"
    by (simp add: task_frame_def)
  with Cons show ?case by simp
qed

lemma reachable_inv: "sched_inv (foldl perform TaskScheduler ops)"
  using TaskScheduler_inv by (rule foldl_perform_inv)













text \<open>
  The scheduler takes the time from its field \<open>now\<close>, the time of the latest frame.
  Before the first frame the field is still 0, while \<open>lastRun\<close> is a reading of
  \<open>performance.now()\<close>: a task constructed at 5000 and paused before any frame, with
  frames up to 8000 before the resume, has its \<open>lastRun\<close> moved to 13000.
\<close>

lemma pause_before_first_frame:
  "sched_now (foldl perform TaskScheduler [Start, Add ''t'' 100 INFINITE 0 [''global''] 5000]) = 0 \<and>
   lastRun (heap (resume ''global'' (frames [5016, 6000, 8000] (pause ''global''
     (foldl perform TaskScheduler [Start, Add ''t'' 100 INFINITE 0 [''global''] 5000])))) 0) = 13000"
  by (simp add: add_def push_def remove_def TaskScheduler_def ScheduledTask_def start_def
      loop_def loop_body_def pause_def resume_def notifyPaused_def notifyResumed_def Let_def)

subsection \<open>Scheduler: how often a plain task runs\<close>

lemma loop_body_trace_inv:
  assumes "trace_inv s" and "r < next_ref s"
  shows "trace_inv (loop_body now r s)"
proof -
  obtain t' act ev where run: "run r (heap s r) now = (t', act, ev)" by (metis prod_cases3)
  from event_task_run[OF run] have "event_task ev = r" .
  then show ?thesis
    using assms by (auto simp: trace_inv_def loop_body_def Let_def run remove_def)
qed

lemma shrinks_next_ref: "shrinks s s' \<Longrightarrow> next_ref s' = next_ref s"
  unfolding shrinks_def by simp

lemma for_tasks_trace_inv:
  "trace_inv s \<Longrightarrow> \<forall>r\<in>set rs. r < next_ref s \<Longrightarrow> trace_inv (for_tasks now rs s)"
proof (induction rs arbitrary: s)
  case Nil
  then show ?case by simp
next
  case (Cons r rs)
  have "trace_inv (loop_body now r s)" using Cons.prems by (simp add: loop_body_trace_inv)
  moreover have "\<forall>q\<in>set rs. q < next_ref (loop_body now r s)"
    using Cons.prems(2) by (simp add: shrinks_next_ref[OF shrinks_loop_body])
  ultimately show ?case using Cons.IH by simp
qed

lemma loop_trace_inv:
  assumes "sched_inv s" and "trace_inv s"
  shows "trace_inv (loop now s)"
proof -
  let ?s1 = "s\<lparr>sched_now := now\<rparr>"
  have "trace_inv ?s1" using assms(2) by (simp add: trace_inv_def)
  moreover have "\<forall>r\<in>set (tasks ?s1). r < next_ref ?s1"
    using assms(1) by (simp add: sched_inv_def)
  ultimately have "trace_inv (for_tasks now (tasks ?s1) ?s1)" by (rule for_tasks_trace_inv)
  then show ?thesis using assms(2) by (simp add: loop_def Let_def)
qed

lemma perform_trace_inv:
  assumes "sched_inv s" and "trace_inv s"
  shows "trace_inv (perform s x)"
proof (cases x)
  case (Frame now)
  then show ?thesis using loop_trace_inv[OF assms] by simp
next
  case (Pause c)
  then show ?thesis using assms(2)
    by (simp add: trace_inv_def pause_def Let_def notify_each_fields)
next
  case (Resume c)
  then show ?thesis using assms(2)
    by (simp add: trace_inv_def resume_def Let_def start_def notify_each_fields)
qed (use assms(2) in \<open>auto simp: trace_inv_def add_def addAnim_def push_def remove_def
      start_def stop_def split: option.splits\<close>)

lemma reachable_trace_inv: "trace_inv (foldl perform TaskScheduler ops)"
proof -
  have "sched_inv s \<and> trace_inv s \<Longrightarrow>
      sched_inv (foldl perform s ops) \<and> trace_inv (foldl perform s ops)" for s
    by (induction ops arbitrary: s) (simp_all add: perform_inv perform_trace_inv)
  moreover have "trace_inv TaskScheduler" by (simp add: trace_inv_def TaskScheduler_def)
  ultimately show ?thesis using TaskScheduler_inv by blast
qed

lemma task_frame_unscheduled:
  "foldl (\<lambda>v now. task_frame r paused now v) (t, False, evs) ts = (t, False, evs)"
  by (induction ts) (simp_all add: task_frame_def)

lemma run_plain_finite:
  assumes "anim t = None" and "repeat t \<noteq> INFINITE"
  shows "run r t now =
    (t\<lparr>lastRun := now, remaining := remaining t - 1\<rparr>, remaining t - 1 \<noteq> 0, Fired r (fn t))"
  using assms by (simp add: run_def run_plain_def Let_def)

lemma frames_finite:
  assumes "anim t = None" and "repeat t \<noteq> INFINITE" and "remaining t = int m" and "1 \<le> m"
    and "\<not> list_ex (\<lambda>ch. ch \<in> paused) (channels t)"
  shows "snd (foldl (\<lambda>v now. task_frame r paused now v) (t, True, evs) ts) =
     (due_count (lastRun t) (delay t) ts < m,
      evs @ replicate (min m (due_count (lastRun t) (delay t) ts)) (Fired r (fn t)))"
  using assms
proof (induction ts arbitrary: t m evs)
  case Nil
  then show ?case by simp
next
  case (Cons now ts)
  show ?case
  proof (cases "shouldRun t now")
    case False
    then have "task_frame r paused now (t, True, evs) = (t, True, evs)"
      using Cons.prems(5) by (simp add: task_frame_def)
    moreover from False have "\<not> now - lastRun t \<ge> delay t" by (simp add: shouldRun_def)
    ultimately show ?thesis using Cons.IH[OF Cons.prems, of evs] by simp
  next
    case True
    then have due: "now - lastRun t \<ge> delay t" by (simp add: shouldRun_def)
    let ?t1 = "t\<lparr>lastRun := now, remaining := remaining t - 1\<rparr>"
    let ?ev = "Fired r (fn t)"
    have step: "task_frame r paused now (t, True, evs) = (?t1, remaining t - 1 \<noteq> 0, evs @ [?ev])"
      using True Cons.prems(5) run_plain_finite[OF Cons.prems(1,2), of r now]
      by (simp add: task_frame_def)
    show ?thesis
    proof (cases "m = 1")
      case True
      then have "remaining t - 1 = 0" using Cons.prems(3) by simp
      with step have "task_frame r paused now (t, True, evs) = (?t1, False, evs @ [?ev])"
        by simp
      then show ?thesis using due True by (simp add: task_frame_unscheduled)
    next
      case False
      then have m: "2 \<le> m" using Cons.prems(4) by simp
      then have nz: "remaining t - 1 \<noteq> 0" using Cons.prems(3) by simp
      have r1: "remaining ?t1 = int (m - 1)" using Cons.prems(3) m by simp
      have ih: "snd (foldl (\<lambda>v now. task_frame r paused now v) (?t1, True, evs @ [?ev]) ts) =
         (due_count now (delay t) ts < m - 1,
          (evs @ [?ev]) @ replicate (min (m - 1) (due_count now (delay t) ts)) ?ev)"
        using Cons.IH[of ?t1 "m - 1" "evs @ [?ev]"] Cons.prems(1,2,5) r1 m by simp
      have a: "min m (Suc k) = Suc (min (m - 1) k)" for k using m by simp
      have b: "(Suc k < m) = (k < m - 1)" for k using m by auto
      show ?thesis using due step nz ih by (simp add: a b)
    qed
  qed
qed

lemma frames_unbounded:
  assumes "anim t = None" and "remaining t \<le> 0" and "repeat t = INFINITE \<longrightarrow> remaining t < 0"
    and "\<not> list_ex (\<lambda>ch. ch \<in> paused) (channels t)"
  shows "snd (foldl (\<lambda>v now. task_frame r paused now v) (t, True, evs) ts) =
     (True, evs @ replicate (due_count (lastRun t) (delay t) ts) (Fired r (fn t)))"
  using assms
proof (induction ts arbitrary: t evs)
  case Nil
  then show ?case by simp
next
  case (Cons now ts)
  show ?case
  proof (cases "shouldRun t now")
    case False
    then have "task_frame r paused now (t, True, evs) = (t, True, evs)"
      using Cons.prems(4) by (simp add: task_frame_def)
    moreover from False have "\<not> now - lastRun t \<ge> delay t" by (simp add: shouldRun_def)
    ultimately show ?thesis using Cons.IH[OF Cons.prems, of evs] by simp
  next
    case True
    then have due: "now - lastRun t \<ge> delay t" by (simp add: shouldRun_def)
    define t1 where "t1 = fst (run r t now)"
    let ?ev = "Fired r (fn t)"
    have run: "run r t now = (t1, True, ?ev)" and t1: "anim t1 = None" "remaining t1 \<le> 0"
      "repeat t1 = INFINITE \<longrightarrow> remaining t1 < 0" "channels t1 = channels t"
      "lastRun t1 = now" "delay t1 = delay t" "fn t1 = fn t"
      using Cons.prems(1,2,3) by (auto simp: t1_def run_def run_plain_def Let_def)
    have step: "task_frame r paused now (t, True, evs) = (t1, True, evs @ [?ev])"
      using True Cons.prems(4) run by (simp add: task_frame_def)
    have "snd (foldl (\<lambda>v now. task_frame r paused now v) (t1, True, evs @ [?ev]) ts) =
       (True, (evs @ [?ev]) @ replicate (due_count now (delay t) ts) ?ev)"
      using Cons.IH[of t1 "evs @ [?ev]"] t1 Cons.prems(4) by simp
    then show ?thesis using due step by (simp add: replicate_app_Cons_same)
  qed
qed


lemma events_of_fresh:
  "trace_inv s \<Longrightarrow> events_of (next_ref s) (trace s) = []"
  by (auto simp: trace_inv_def events_of_def filter_empty_conv)

text \<open>
  C10, the repeat count. On a running scheduler reached by any sequence of
  operations, add a plain task with \<open>repeat = n\<close> on channels that are not paused,
  and let frames follow; \<open>k\<close> is the number of those frames at which the task is due.
  For \<open>n \<ge> 1\<close> its callback has been called \<open>min n k\<close> times and the task is
  scheduled as long as \<open>k < n\<close>: it runs exactly \<open>n\<close> times and is removed by the
  \<open>n\<close>-th run. For \<open>n = 0\<close> (and any \<open>n \<le> 0\<close>) the callback has been called at all
  \<open>k\<close> due frames and the task is still scheduled: the first run takes \<open>remaining\<close>
  to \<open>-1\<close> and reports the task active.
\<close>

theorem repeat_count:
  fixes ops :: "sched_op list" and ts :: "real list" and n :: int and name :: string
    and dl clock :: real and f :: nat and chs :: "string list"
  defines "s0 \<equiv> foldl perform TaskScheduler ops"
  defines "s1 \<equiv> add name dl n f chs clock s0"
  defines "r \<equiv> next_ref s0"
  defines "k \<equiv> due_count clock dl ts"
  assumes "running s0" and "\<not> list_ex (\<lambda>ch. ch \<in> pausedChannels s0) chs"
  shows "heap s1 r = ScheduledTask name dl n f chs clock \<and> r \<in> set (tasks s1) \<and>
     events_of r (trace (frames ts s1)) =
       replicate (if 1 \<le> n then min (nat n) k else k) (Fired r f) \<and>
     (r \<in> set (tasks (frames ts s1)) \<longleftrightarrow> (1 \<le> n \<longrightarrow> k < nat n)) \<and>
     (n = 0 \<longrightarrow> remaining (fst (run r (heap s1 r) now)) = - 1 \<and>
                fst (snd (run r (heap s1 r) now)))"
proof -
  let ?T = "ScheduledTask name dl n f chs clock"
  let ?F = "\<lambda>v now. task_frame r (pausedChannels s1) now v"
  have i0: "sched_inv s0" unfolding s0_def by (rule reachable_inv)
  have t0: "trace_inv s0" unfolding s0_def by (rule reachable_trace_inv)
  have i1: "sched_inv s1" using perform_inv[OF i0, of "Add name dl n f chs clock"]
    by (simp add: s1_def)
  have h1: "heap s1 r = ?T" and m1: "r \<in> set (tasks s1)" and tr1: "trace s1 = trace s0"
    and run1: "running s1" and p1: "pausedChannels s1 = pausedChannels s0"
    using assms(5) by (simp_all add: s1_def r_def add_def push_def remove_def)
  have e1: "events_of r (trace s1) = []"
    using events_of_fresh[OF t0] by (simp add: tr1 r_def)
  have v1: "view r s1 = (?T, True, [])" using h1 m1 e1 by (simp add: view_def)
  have vf: "view r (frames ts s1) = foldl ?F (?T, True, []) ts"
    using view_frames[OF i1 run1, of r ts] by (simp add: v1)
  have sv: "snd (view r (frames ts s1)) =
      (r \<in> set (tasks (frames ts s1)), events_of r (trace (frames ts s1)))"
    by (simp add: view_def)
  have np: "\<not> list_ex (\<lambda>ch. ch \<in> pausedChannels s1) (channels ?T)"
    using assms(6) by (simp add: p1 ScheduledTask_def)
  have fields: "anim ?T = None" "repeat ?T = n" "remaining ?T = n" "lastRun ?T = clock"
    "delay ?T = dl" "fn ?T = f"
    by (simp_all add: ScheduledTask_def)
  have main: "(r \<in> set (tasks (frames ts s1)), events_of r (trace (frames ts s1))) =
      ((1 \<le> n \<longrightarrow> k < nat n), replicate (if 1 \<le> n then min (nat n) k else k) (Fired r f))"
  proof (cases "1 \<le> n")
    case True
    then have a: "repeat ?T \<noteq> INFINITE" "remaining ?T = int (nat n)" "1 \<le> nat n"
      by (simp_all add: fields INFINITE_def)
    from frames_finite[OF fields(1) a np, of r "[]" ts] True show ?thesis
      unfolding sv[symmetric] vf by (simp add: fields k_def)
  next
    case False
    then have a: "remaining ?T \<le> 0" "repeat ?T = INFINITE \<longrightarrow> remaining ?T < 0"
      unfolding fields INFINITE_def by simp_all
    from frames_unbounded[OF fields(1) a np, of r "[]" ts] False show ?thesis
      unfolding sv[symmetric] vf by (simp add: fields k_def)
  qed
  have z: "n = 0 \<longrightarrow> remaining (fst (run r (heap s1 r) now)) = - 1 \<and>
        fst (snd (run r (heap s1 r) now))"
    by (simp add: h1 run_def run_plain_def Let_def ScheduledTask_def INFINITE_def)
  from h1 m1 main z show ?thesis by simp
qed

theorem repeat_count_witness:
  "events_of 0 (trace (frames [10, 15, 20, 30, 40]
      (add ''t'' 10 2 7 [''global''] 0 (foldl perform TaskScheduler [Start])))) =
     [Fired 0 7, Fired 0 7] \<and>
   0 \<notin> set (tasks (frames [10, 15, 20, 30, 40]
      (add ''t'' 10 2 7 [''global''] 0 (foldl perform TaskScheduler [Start])))) \<and>
   events_of 0 (trace (frames [10, 15, 20, 30, 40]
      (add ''t'' 10 0 7 [''global''] 0 (foldl perform TaskScheduler [Start])))) =
     [Fired 0 7, Fired 0 7, Fired 0 7, Fired 0 7] \<and>
   0 \<in> set (tasks (frames [10, 15, 20, 30, 40]
      (add ''t'' 10 0 7 [''global''] 0 (foldl perform TaskScheduler [Start]))))"
proof -
  have h1: "running (foldl perform TaskScheduler [Start])"
    by (simp add: start_def TaskScheduler_def)
  have h2: "\<not> list_ex (\<lambda>ch. ch \<in> pausedChannels (foldl perform TaskScheduler [Start])) [''global'']"
    by (simp add: start_def TaskScheduler_def)
  have r: "next_ref (foldl perform TaskScheduler [Start]) = 0"
    by (simp add: start_def TaskScheduler_def)
  have k: "due_count 0 10 [10, 15, 20, 30, 40] = 4" by simp
  from repeat_count[OF h1 h2, of "''t''" 10 2 7 0 "[10, 15, 20, 30, 40]"]
    repeat_count[OF h1 h2, of "''t''" 10 0 7 0 "[10, 15, 20, 30, 40]"]
  show ?thesis unfolding r k by (simp add: numeral_eq_Suc)
qed

subsection \<open>Scheduler: animation tasks\<close>

lemma run_anim_identity:
  assumes "anim t = Some a" and "curve a = (\<lambda>p. p)" and "startVal a = 0" and "endVal a = 10"
    and "duration a \<noteq> 0"
  shows "run r t now =
     (t\<lparr>lastRun := now\<rparr>,
      now - animStart a - totalPausedTime t < duration a,
      Sampled r (fn t)
        (Fin (10 * min 1 (max 0 ((now - animStart a - totalPausedTime t) / duration a)))))"
  using assms by (simp add: run_def run_anim_def Let_def js_div_def)

text \<open>With a zero duration and no time elapsed the progress is \<open>0 / 0\<close>, not a number.\<close>

lemma run_anim_zero_duration:
  assumes "anim t = Some a" and "curve a = (\<lambda>p. p)" and "duration a = 0"
    and "now - animStart a - totalPausedTime t = 0"
  shows "snd (snd (run r t now)) = Sampled r (fn t) NaN"
  using assms by (simp add: run_def run_anim_def Let_def js_div_def)

lemma anim_example_fields:
  "running anim_example" "tasks anim_example = [0]" "pausedChannels anim_example = {}"
  "trace anim_example = []"
  "heap anim_example 0 =
     AnimationTask ''fade'' 0 10 None 100 3 [''global'', ''animation''] 0 0"
  by (simp_all add: anim_example_def addAnim_def push_def remove_def TaskScheduler_def start_def)

text \<open>
  C6, animation interpolation and completion. Take a running scheduler reached by any
  sequence of operations and a scheduled animation task with the identity curve,
  start value 0, end value 10 and a duration \<open>D\<close> other than zero, whose channels are
  not paused; at a frame at which it runs, with
  \<open>elapsed = now - animStart - totalPausedTime\<close>: the callback is called once, with 0
  when \<open>elapsed = 0\<close>, with 10 when \<open>elapsed = D\<close>, and always with \<open>10 * p\<close> for a
  progress \<open>p\<close> in \<open>[0, 1]\<close>; \<open>run\<close> reports the task active exactly when
  \<open>elapsed < D\<close>, and the frame removes the task exactly when \<open>elapsed \<ge> D\<close>.
\<close>

theorem animation_interpolation:
  fixes ops :: "sched_op list" and now :: real and r :: nat and a :: anim
  defines "s \<equiv> foldl perform TaskScheduler ops"
  defines "elapsed \<equiv> now - animStart a - totalPausedTime (heap s r)"
  defines "called \<equiv> (\<lambda>v. events_of r (trace (loop now s)) =
                          events_of r (trace s) @ [Sampled r (fn (heap s r)) v])"
  assumes "running s" and "r \<in> set (tasks s)"
    and "\<not> list_ex (\<lambda>ch. ch \<in> pausedChannels s) (channels (heap s r))"
    and "shouldRun (heap s r) now"
    and "anim (heap s r) = Some a" and "curve a = (\<lambda>p. p)"
    and "startVal a = 0" and "endVal a = 10" and "duration a \<noteq> 0"
  shows "(elapsed = 0 \<longrightarrow> called (Fin 0)) \<and>
         (elapsed = duration a \<longrightarrow> called (Fin 10)) \<and>
         (\<exists>p. 0 \<le> p \<and> p \<le> 1 \<and> called (Fin (10 * p))) \<and>
         (fst (snd (run r (heap s r) now)) \<longleftrightarrow> elapsed < duration a) \<and>
         (r \<notin> set (tasks (loop now s)) \<longleftrightarrow> elapsed \<ge> duration a)"
proof -
  let ?t = "heap s r"
  let ?p = "min 1 (max 0 (elapsed / duration a))"
  note run = run_anim_identity[OF assms(8-12), of r now, folded elapsed_def]
  have i: "sched_inv s" unfolding s_def by (rule reachable_inv)
  have "view r (loop now s) =
      (?t\<lparr>lastRun := now\<rparr>, elapsed < duration a,
       events_of r (trace s) @ [Sampled r (fn ?t) (Fin (10 * ?p))])"
    using view_loop[OF i assms(4), of r now] assms(5,6,7)
    by (simp add: view_def task_frame_def run)
  then have m: "r \<in> set (tasks (loop now s)) \<longleftrightarrow> elapsed < duration a"
    and c: "called (Fin (10 * ?p))"
    by (simp_all add: view_def called_def)
  have z: "elapsed = 0 \<longrightarrow> called (Fin 0)" using c by auto
  have d: "elapsed = duration a \<longrightarrow> called (Fin 10)" using c assms(12) by auto
  have "0 \<le> ?p \<and> ?p \<le> 1" by simp
  with c have e: "\<exists>p. 0 \<le> p \<and> p \<le> 1 \<and> called (Fin (10 * p))" by blast
  have a: "fst (snd (run r ?t now)) \<longleftrightarrow> elapsed < duration a" by (simp add: run)
  from z d e a m show ?thesis by auto
qed

theorem animation_interpolation_witness:
  "events_of 0 (trace (loop 0 anim_example)) = [Sampled 0 3 (Fin 0)] \<and>
   0 \<in> set (tasks (loop 0 anim_example)) \<and>
   events_of 0 (trace (loop 100 anim_example)) = [Sampled 0 3 (Fin 10)] \<and>
   0 \<notin> set (tasks (loop 100 anim_example))"
proof -
  let ?a = "\<lparr>startVal = 0, endVal = 10, curve = (\<lambda>t. t), duration = 100, animStart = 0\<rparr>"
  let ?ops = "[Start, AddAnim ''fade'' 0 10 None 100 3 [''global'', ''animation''] 0 0]"
  note f = anim_example_fields[unfolded anim_example_def]
  have h4: "running (foldl perform TaskScheduler ?ops)" by (rule f(1))
  have h5: "0 \<in> set (tasks (foldl perform TaskScheduler ?ops))" using f(2) by simp
  have h6: "\<not> list_ex (\<lambda>ch. ch \<in> pausedChannels (foldl perform TaskScheduler ?ops))
      (channels (heap (foldl perform TaskScheduler ?ops) 0))"
    using f(3) by (simp add: list_ex_iff)
  have h7: "shouldRun (heap (foldl perform TaskScheduler ?ops) 0) 0"
    "shouldRun (heap (foldl perform TaskScheduler ?ops) 0) 100"
    using f(5) by (simp_all add: shouldRun_def AnimationTask_def ScheduledTask_def)
  have h8: "anim (heap (foldl perform TaskScheduler ?ops) 0) = Some ?a"
    using f(5) by (simp add: AnimationTask_def ScheduledTask_def)
  have g: "totalPausedTime (heap (foldl perform TaskScheduler ?ops) 0) = 0"
    "fn (heap (foldl perform TaskScheduler ?ops) 0) = 3"
    using f(5) by (simp_all add: AnimationTask_def ScheduledTask_def)
  have tr: "trace (foldl perform TaskScheduler ?ops) = []" using f(4) by simp
  from animation_interpolation[OF h4 h5 h6 h7(1) h8] animation_interpolation[OF h4 h5 h6 h7(2) h8]
  show ?thesis
    unfolding anim_example_def g tr by (simp add: events_of_def)
qed

subsection \<open>Click dispatch\<close>

lemma click_scan_find:
  "click_scan us x y =
     (case find (\<lambda>u. unit_hitTest u x y \<and> enabled u) us of
        None \<Rightarrow> []
      | Some u \<Rightarrow> (case onClick u of None \<Rightarrow> [] | Some h \<Rightarrow> [(u, h)]))"
  by (induction us) simp_all

lemma click_scan_skip:
  "\<forall>v\<in>set vs. \<not> (unit_hitTest v x y \<and> enabled v) \<Longrightarrow>
   click_scan (vs @ us) x y = click_scan us x y"
  by (induction vs) auto

text \<open>
  C8, topmost-wins dispatch. For every click point and unit list, the click goes to
  the first unit, scanning the list in reverse, that accepts the point and is
  enabled, and to no other: at most one \<open>onClick\<close> is called. If \<open>u\<close> is the last unit
  of the list that accepts the point and is enabled, exactly its \<open>onClick\<close> is called,
  whatever units before it overlap it; if no unit does, none is called. (The call is
  \<open>onClick?.\<close>: a unit whose handler has been removed takes the click without a call.)
\<close>

theorem topmost_wins:
  "click units' x y =
     (case find (\<lambda>u. unit_hitTest u x y \<and> enabled u) (rev units') of
        None \<Rightarrow> []
      | Some u \<Rightarrow> (case onClick u of None \<Rightarrow> [] | Some h \<Rightarrow> [(u, h)])) \<and>
   length (click units' x y) \<le> 1 \<and>
   (units' = pre @ u # post \<and> unit_hitTest u x y \<and> enabled u \<and>
    (\<forall>v\<in>set post. \<not> (unit_hitTest v x y \<and> enabled v)) \<and> onClick u = Some h \<longrightarrow>
      click units' x y = [(u, h)]) \<and>
   ((\<forall>v\<in>set units'. \<not> (unit_hitTest v x y \<and> enabled v)) \<longrightarrow> click units' x y = [])"
proof -
  have a: "click units' x y =
     (case find (\<lambda>u. unit_hitTest u x y \<and> enabled u) (rev units') of
        None \<Rightarrow> []
      | Some u \<Rightarrow> (case onClick u of None \<Rightarrow> [] | Some h \<Rightarrow> [(u, h)]))"
    by (simp add: click_def click_scan_find)
  have b: "length (click units' x y) \<le> 1"
    unfolding a by (simp split: option.splits)
  have c: "click units' x y = [(u, h)]"
    if "units' = pre @ u # post" "unit_hitTest u x y" "enabled u"
      "\<forall>v\<in>set post. \<not> (unit_hitTest v x y \<and> enabled v)" "onClick u = Some h"
  proof -
    have "click units' x y = click_scan (rev post @ u # rev pre) x y"
      by (simp add: click_def that(1))
    also have "\<dots> = click_scan (u # rev pre) x y"
      using that(4) by (intro click_scan_skip) simp
    also have "\<dots> = [(u, h)]" using that(2,3,5) by simp
    finally show ?thesis .
  qed
  have d: "click units' x y = []" if "\<forall>v\<in>set units'. \<not> (unit_hitTest v x y \<and> enabled v)"
    using click_scan_skip[of "rev units'" x y "[]"] that by (simp add: click_def)
  from a b c d show ?thesis by blast
qed

theorem topmost_wins_witness:
  "unit_hitTest unit_A 60 60 \<and> enabled unit_A \<and> unit_hitTest unit_B 60 60 \<and> enabled unit_B \<and>
   click [unit_A, unit_B] 60 60 = [(unit_B, 2)] \<and>
   click [unit_B, unit_A] 60 60 = [(unit_A, 1)]"
proof -
  have a: "unit_hitTest unit_A 60 60" "enabled unit_A" "onClick unit_A = Some 1"
    by (simp_all add: unit_A_def default_unit_def unit_hitTest_def hitTestDefault_def
        getCenterPos_def js_div_def Let_def)
  have b: "unit_hitTest unit_B 60 60" "enabled unit_B" "onClick unit_B = Some 2"
    by (simp_all add: unit_B_def default_unit_def unit_hitTest_def hitTestDefault_def
        getCenterPos_def js_div_def Let_def)
  have "click [unit_A, unit_B] 60 60 = [(unit_B, 2)]"
    using topmost_wins[of "[unit_A, unit_B]" 60 60 "[unit_A]" unit_B "[]" 2] b by simp
  moreover have "click [unit_B, unit_A] 60 60 = [(unit_A, 1)]"
    using topmost_wins[of "[unit_B, unit_A]" 60 60 "[unit_B]" unit_A "[]" 1] a by simp
  ultimately show ?thesis using a b by simp
qed

subsection \<open>The default hit test\<close>

lemma rotate_back: "rotate a (rotate (- a) p) = p"
proof -
  have e: "v * (cos a * cos a) + v * (sin a * sin a) = v" for v :: real
    using sin_cos_squared_add3[of a] by (simp add: distrib_left[symmetric])
  have "fst (rotate a (rotate (- a) p)) = fst p" "snd (rotate a (rotate (- a) p)) = snd p"
    using e[of "fst p"] e[of "snd p"] by (simp_all add: rotate_def algebra_simps)
  then show ?thesis by (simp add: prod_eq_iff)
qed

lemma rotate_forth: "rotate (- a) (rotate a p) = p"
  using rotate_back[of "- a" p] by simp

lemma hitTestDefault_local:
  assumes "scale_x u \<noteq> 0" and "scale_y u \<noteq> 0"
  shows "hitTestDefault u x y \<longleftrightarrow> in_box u (to_local u (x, y))"
  using assms
  by (auto simp: hitTestDefault_def to_local_def in_box_def rotate_def getCenterPos_def
      js_div_def Let_def add.commute)

lemma to_canvas_to_local:
  assumes "scale_x u \<noteq> 0" and "scale_y u \<noteq> 0"
  shows "to_canvas u (to_local u p) = p"
proof -
  let ?c = "getCenterPos u"
  let ?q = "rotate (- rot_x u) (fst p - fst ?c, snd p - snd ?c)"
  have "to_canvas u (to_local u p) = (fst ?c + fst (rotate (rot_x u) ?q), snd ?c + snd (rotate (rot_x u) ?q))"
    using assms by (simp add: to_canvas_def to_local_def Let_def prod_eq_iff)
  then show ?thesis by (simp add: rotate_back prod_eq_iff)
qed

lemma to_local_to_canvas:
  assumes "scale_x u \<noteq> 0" and "scale_y u \<noteq> 0"
  shows "to_local u (to_canvas u p) = p"
proof -
  let ?v = "(scale_x u * (fst p - width u / 2), scale_y u * (snd p - height u / 2))"
  have "to_local u (to_canvas u p) =
      (fst (rotate (- rot_x u) (rotate (rot_x u) ?v)) / scale_x u + width u / 2,
       snd (rotate (- rot_x u) (rotate (rot_x u) ?v)) / scale_y u + height u / 2)"
    by (simp add: to_canvas_def to_local_def Let_def)
  then show ?thesis using assms by (simp add: rotate_forth prod_eq_iff)
qed

lemma hitTestDefault_zero_scale:
  assumes "scale_x u = 0 \<or> scale_y u = 0"
  shows "\<not> hitTestDefault u x y"
  using assms
  by (auto simp: hitTestDefault_def getCenterPos_def js_div_def Let_def)

text \<open>
  C9, the default hit test. For a unit with non-zero scale the test accepts a point
  exactly when the point, translated by the negative center, rotated by \<open>- rot.x\<close>,
  divided by the scale and shifted by half the size, lies in
  \<open>[0, width] \<times> [0, height]\<close>; equivalently, when it is the image of a point of that
  box under the transform the unit is drawn with, so that rotating or scaling the
  unit moves the hit region with it. A unit with a zero scale is never hit. The
  unrotated, unscaled unit at (10, 10) of size (100, 100) contains (50, 50) and not
  (200, 200); a 100 by 20 unit at the origin contains (5, 10) and not (50, 50), and
  rotated by a quarter turn it contains (50, 50) and not (5, 10).
\<close>

theorem hit_test_default:
  "(scale_x u \<noteq> 0 \<and> scale_y u \<noteq> 0 \<longrightarrow>
      (hitTestDefault u x y \<longleftrightarrow> in_box u (to_local u (x, y))) \<and>
      (hitTestDefault u x y \<longleftrightarrow> (\<exists>p. in_box u p \<and> to_canvas u p = (x, y)))) \<and>
   (scale_x u = 0 \<or> scale_y u = 0 \<longrightarrow> \<not> hitTestDefault u x y) \<and>
   hitTestDefault default_unit 50 50 \<and> \<not> hitTestDefault default_unit 200 200 \<and>
   hitTestDefault wide_unit 5 10 \<and> \<not> hitTestDefault wide_unit 50 50 \<and>
   \<not> hitTestDefault (wide_unit\<lparr>rot_x := pi / 2\<rparr>) 5 10 \<and>
   hitTestDefault (wide_unit\<lparr>rot_x := pi / 2\<rparr>) 50 50"
proof -
  have a: "(hitTestDefault u x y \<longleftrightarrow> in_box u (to_local u (x, y))) \<and>
      (hitTestDefault u x y \<longleftrightarrow> (\<exists>p. in_box u p \<and> to_canvas u p = (x, y)))"
    if s: "scale_x u \<noteq> 0" "scale_y u \<noteq> 0"
  proof -
    note l = hitTestDefault_local[OF s]
    have "(\<exists>p. in_box u p \<and> to_canvas u p = (x, y)) \<longleftrightarrow> in_box u (to_local u (x, y))"
    proof
      assume "\<exists>p. in_box u p \<and> to_canvas u p = (x, y)"
      then obtain p where p: "in_box u p" "to_canvas u p = (x, y)" by blast
      from to_local_to_canvas[OF s, of p] p(2) have "to_local u (x, y) = p" by simp
      with p(1) show "in_box u (to_local u (x, y))" by simp
    next
      assume "in_box u (to_local u (x, y))"
      with to_canvas_to_local[OF s, of "(x, y)"]
      show "\<exists>p. in_box u p \<and> to_canvas u p = (x, y)" by blast
    qed
    with l show ?thesis by simp
  qed
  have b: "hitTestDefault default_unit 50 50" "\<not> hitTestDefault default_unit 200 200"
    by (simp_all add: default_unit_def hitTestDefault_def getCenterPos_def js_div_def Let_def)
  have c: "hitTestDefault wide_unit 5 10" "\<not> hitTestDefault wide_unit 50 50"
    "\<not> hitTestDefault (wide_unit\<lparr>rot_x := pi / 2\<rparr>) 5 10"
    "hitTestDefault (wide_unit\<lparr>rot_x := pi / 2\<rparr>) 50 50"
    by (simp_all add: wide_unit_def default_unit_def hitTestDefault_def getCenterPos_def
        js_div_def Let_def)
  from a b c hitTestDefault_zero_scale[of u x y] show ?thesis by blast
qed

theorem hit_test_default_witness:
  "scale_x (wide_unit\<lparr>rot_x := pi / 2\<rparr>) \<noteq> 0 \<and> scale_y (wide_unit\<lparr>rot_x := pi / 2\<rparr>) \<noteq> 0 \<and>
   to_local (wide_unit\<lparr>rot_x := pi / 2\<rparr>) (50, 50) = (90, 10) \<and>
   in_box (wide_unit\<lparr>rot_x := pi / 2\<rparr>) (90, 10) \<and>
   to_canvas (wide_unit\<lparr>rot_x := pi / 2\<rparr>) (90, 10) = (50, 50) \<and>
   hitTestDefault (wide_unit\<lparr>rot_x := pi / 2\<rparr>) 50 50"
proof -
  let ?u = "wide_unit\<lparr>rot_x := pi / 2\<rparr>"
  have s: "scale_x ?u \<noteq> 0 \<and> scale_y ?u \<noteq> 0" by (simp add: wide_unit_def default_unit_def)
  have l: "to_local ?u (50, 50) = (90, 10)"
    by (simp add: to_local_def rotate_def getCenterPos_def wide_unit_def default_unit_def Let_def)
  have b: "in_box ?u (90, 10)" by (simp add: in_box_def wide_unit_def default_unit_def)
  have c: "to_canvas ?u (90, 10) = (50, 50)"
    by (simp add: to_canvas_def rotate_def getCenterPos_def wide_unit_def default_unit_def Let_def)
  from hit_test_default[of ?u 50 50] s l b have "hitTestDefault ?u 50 50" by simp
  with s l b c show ?thesis by simp
qed

subsection \<open>Position binding\<close>

lemma key_plain: "getAttributeStoreName u attr \<notin> set object_prototype_keys"
proof -
  have "CHR '':'' \<in> set (getAttributeStoreName u attr)"
    by (simp add: getAttributeStoreName_def)
  moreover have "\<forall>k\<in>set object_prototype_keys. CHR '':'' \<notin> set k"
    by (simp add: object_prototype_keys_def)
  ultimately show ?thesis by blast
qed

lemma key_pos_eq:
  "getAttributeStoreName u ''pos'' = getAttributeStoreName v ''pos'' \<longleftrightarrow> unit_name u = unit_name v"
  by (simp add: getAttributeStoreName_def)

lemma key_pos_other:
  "getAttributeStoreName u ''pos'' \<noteq> getAttributeStoreName v ''size''"
  "getAttributeStoreName u ''pos'' \<noteq> getAttributeStoreName v ''rot''"
  "getAttributeStoreName u ''pos'' \<noteq> getAttributeStoreName v ''scale''"
proof -
  have l: "last (getAttributeStoreName u ''pos'') = CHR ''s''"
    "last (getAttributeStoreName v ''size'') = CHR ''e''"
    "last (getAttributeStoreName v ''rot'') = CHR ''t''"
    "last (getAttributeStoreName v ''scale'') = CHR ''e''"
    by (simp_all add: getAttributeStoreName_def)
  have d: "last k = c \<Longrightarrow> last k' = c' \<Longrightarrow> c \<noteq> c' \<Longrightarrow> k \<noteq> k'" for k k' :: string and c c'
    by blast
  show "getAttributeStoreName u ''pos'' \<noteq> getAttributeStoreName v ''size''"
    by (rule d[OF l(1) l(2)]) simp
  show "getAttributeStoreName u ''pos'' \<noteq> getAttributeStoreName v ''rot''"
    by (rule d[OF l(1) l(3)]) simp
  show "getAttributeStoreName u ''pos'' \<noteq> getAttributeStoreName v ''scale''"
    by (rule d[OF l(1) l(4)]) simp
qed

lemma onChange_listeners:
  assumes "key \<notin> set object_prototype_keys"
  shows "fst (onChange key f w) = None"
    and "listeners_of (snd (onChange key f w)) k =
           (if k = key then listeners_of w k @ [f] else listeners_of w k)"
    and "units (snd (onChange key f w)) = units w"
    and "throws (snd (onChange key f w)) = throws w"
    and "calls (snd (onChange key f w)) = calls w"
    and "store_data (snd (onChange key f w)) = store_data w"
  by (simp_all add: onChange_plain[OF assms] listeners_of_def)

lemma watch_each_listeners:
  assumes "\<forall>k\<in>set keys. k \<notin> set object_prototype_keys"
  shows "fst (watch_each keys f w) = None \<and>
     (\<forall>k. listeners_of (snd (watch_each keys f w)) k =
            listeners_of w k @ replicate (count_list keys k) f) \<and>
     units (snd (watch_each keys f w)) = units w \<and>
     throws (snd (watch_each keys f w)) = throws w \<and>
     calls (snd (watch_each keys f w)) = calls w \<and>
     store_data (snd (watch_each keys f w)) = store_data w"
  using assms
proof (induction keys arbitrary: w)
  case Nil
  show ?case by simp
next
  case (Cons key keys)
  then have p: "key \<notin> set object_prototype_keys"
    and ps: "\<forall>k\<in>set keys. k \<notin> set object_prototype_keys" by simp_all
  define w1 where "w1 = snd (onChange key f w)"
  have oc: "onChange key f w = (None, w1)"
    using onChange_listeners(1)[OF p, of f w] unfolding w1_def by (simp add: prod_eq_iff)
  have w: "watch_each (key # keys) f w = watch_each keys f w1" by (simp add: oc)
  note ih = Cons.IH[OF ps, of w1]
  note o = onChange_listeners(2-6)[OF p, of f w, folded w1_def]
  have l: "listeners_of (snd (watch_each keys f w1)) k =
      listeners_of w k @ replicate (count_list (key # keys) k) f" for k
  proof -
    from ih have "listeners_of (snd (watch_each keys f w1)) k =
        listeners_of w1 k @ replicate (count_list keys k) f" by blast
    then show ?thesis by (simp add: o(1))
  qed
  from ih have r: "fst (watch_each keys f w1) = None"
    "units (snd (watch_each keys f w1)) = units w1"
    "throws (snd (watch_each keys f w1)) = throws w1"
    "calls (snd (watch_each keys f w1)) = calls w1"
    "store_data (snd (watch_each keys f w1)) = store_data w1"
    by blast+
  show ?case unfolding w using l r by (simp only: o(2-5) simp_thms)
qed

lemma forEach_append:
  "forEach n (xs @ ys) v w =
     (case forEach n xs v w of
        (None, w') \<Rightarrow> forEach n ys v w'
      | (Some e, w') \<Rightarrow> (Some e, w'))"
  by (induction xs arbitrary: w) (auto split: prod.splits option.splits)

lemma call_listener_update:
  "call_listener n (UpdatePosition c this other d padX padY) v w =
     update_pos n this (place d (units w this) (units w other) padX padY) w"
  by (simp add: update_pos_def)

lemma update_pos_callbacks:
  assumes "listeners_of w (getAttributeStoreName (units w r) ''pos'') = map Callback ls"
    and "\<forall>i v. \<not> throws w i v"
  shows "update_pos (Suc n) r p w =
     (None, w\<lparr>units := (units w)(r := (units w r)\<lparr>pos_x := fst p, pos_y := snd p\<rparr>),
              store_data := (store_data w)(getAttributeStoreName (units w r) ''pos'' \<mapsto>
                 Obj [(''x'', Num (fst p)), (''y'', Num (snd p))]),
              calls := calls w @
                 map (\<lambda>i. (i, Obj [(''x'', Num (fst p)), (''y'', Num (snd p))])) ls\<rparr>)"
proof -
  let ?key = "getAttributeStoreName (units w r) ''pos''"
  let ?val = "Obj [(''x'', Num (fst p)), (''y'', Num (snd p))]"
  let ?w1 = "assign_pos r p w"
  have k: "getAttributeStoreName (units ?w1 r) ''pos'' = ?key"
    by (simp add: assign_pos_def getAttributeStoreName_def)
  have v: "pos_value (units ?w1 r) = ?val" by (simp add: assign_pos_def pos_value_def)
  have l: "listeners_of ?w1 ?key = map Callback ls"
    using assms(1) by (simp add: assign_pos_def listeners_of_def)
  let ?w2 = "?w1\<lparr>store_data := (store_data ?w1)(?key \<mapsto> ?val)\<rparr>"
  have nt: "\<forall>i\<in>set ls. \<not> throws ?w2 i ?val" using assms(2) by (simp add: assign_pos_def)
  have "update_pos (Suc n) r p w = forEach n (map Callback ls) ?val ?w2"
    unfolding update_pos_def Let_def k v
    by (simp add: store_set_plain[OF key_plain] l del: store_set.simps)
  also have "\<dots> = (None, ?w2\<lparr>calls := calls ?w2 @ map (\<lambda>i. (i, ?val)) ls\<rparr>)"
    using nt by (rule forEach_callbacks)
  finally show ?thesis by (simp add: assign_pos_def)
qed


lemma place_right:
  "place ''right'' this other padX padY =
     (pos_x other + width other + padX, pos_y other + (height other - height this) / 2 + padY)"
  by (simp add: place_def)

lemma update_bound:
  assumes ab: "a \<noteq> b"
    and names: "unit_name (units w a) \<noteq> unit_name (units w b)"
    and la: "listeners_of w (getAttributeStoreName (units w a) ''pos'') =
               map Callback lsA @ [UpdatePosition c b a ''right'' padX padY]"
    and lb: "listeners_of w (getAttributeStoreName (units w b) ''pos'') = map Callback lsB"
    and nt: "\<forall>i v. \<not> throws w i v"
  shows "fst (update_pos (Suc (Suc n)) a p w) = None"
    and "store_listeners (snd (update_pos (Suc (Suc n)) a p w)) = store_listeners w"
    and "throws (snd (update_pos (Suc (Suc n)) a p w)) = throws w"
    and "units (snd (update_pos (Suc (Suc n)) a p w)) =
      (units w)(a := (units w a)\<lparr>pos_x := fst p, pos_y := snd p\<rparr>,
                b := (units w b)\<lparr>pos_x := fst p + width (units w a) + padX,
                       pos_y := snd p + (height (units w a) - height (units w b)) / 2 + padY\<rparr>)"
    and "store_data (snd (update_pos (Suc (Suc n)) a p w))
           (getAttributeStoreName (units w b) ''pos'') =
         Some (Obj [(''x'', Num (fst p + width (units w a) + padX)),
                    (''y'', Num (snd p + (height (units w a) - height (units w b)) / 2 + padY))])"
proof -
  let ?kA = "getAttributeStoreName (units w a) ''pos''"
  let ?kB = "getAttributeStoreName (units w b) ''pos''"
  let ?f = "UpdatePosition c b a ''right'' padX padY"
  let ?val = "Obj [(''x'', Num (fst p)), (''y'', Num (snd p))]"
  let ?q = "(fst p + width (units w a) + padX,
             snd p + (height (units w a) - height (units w b)) / 2 + padY)"
  define w1 where "w1 = assign_pos a p w"
  define w2 where "w2 = w1\<lparr>store_data := (store_data w1)(?kA \<mapsto> ?val)\<rparr>"
  define w3 where "w3 = w2\<lparr>calls := calls w2 @ map (\<lambda>i. (i, ?val)) lsA\<rparr>"
  have u1: "units w1 = (units w)(a := (units w a)\<lparr>pos_x := fst p, pos_y := snd p\<rparr>)"
    and f1: "store_listeners w1 = store_listeners w" "throws w1 = throws w"
    by (simp_all add: w1_def assign_pos_def)
  have k1: "getAttributeStoreName (units w1 a) ''pos'' = ?kA"
    by (simp add: u1 getAttributeStoreName_def)
  have v1: "pos_value (units w1 a) = ?val" by (simp add: u1 pos_value_def)
  have l1: "listeners_of w1 ?kA = map Callback lsA @ [?f]"
    using la by (simp add: listeners_of_def f1)
  have s1: "update_pos (Suc (Suc n)) a p w = forEach (Suc n) (map Callback lsA @ [?f]) ?val w2"
    unfolding update_pos_def Let_def w1_def[symmetric] k1 v1 w2_def
    by (simp add: store_set_plain[OF key_plain] l1 del: store_set.simps)
  have nt2: "\<forall>i\<in>set lsA. \<not> throws w2 i ?val" using nt by (simp add: w2_def f1)
  have s2: "forEach (Suc n) (map Callback lsA) ?val w2 = (None, w3)"
    unfolding w3_def using nt2 by (rule forEach_callbacks)
  have u3: "units w3 = units w1" and f3: "store_listeners w3 = store_listeners w"
    "throws w3 = throws w"
    by (simp_all add: w3_def w2_def f1)
  have b3: "units w3 b = units w b" and a3: "units w3 a = (units w a)\<lparr>pos_x := fst p, pos_y := snd p\<rparr>"
    using ab by (simp_all add: u3 u1)
  have lb3: "listeners_of w3 (getAttributeStoreName (units w3 b) ''pos'') = map Callback lsB"
    using lb by (simp add: b3 listeners_of_def f3)
  have nt3: "\<forall>i v. \<not> throws w3 i v" using nt by (simp add: f3)
  have pl: "place ''right'' (units w3 b) (units w3 a) padX padY = ?q"
    by (simp add: place_right a3 b3)
  define w4 where "w4 = snd (update_pos (Suc n) b ?q w3)"
  note up = update_pos_callbacks[OF lb3 nt3, of n ?q]
  have s3: "call_listener (Suc n) ?f ?val w3 = (None, w4)"
    unfolding w4_def by (simp only: call_listener_update pl up fst_conv snd_conv)
  have s4: "update_pos (Suc (Suc n)) a p w = (None, w4)"
    unfolding s1 forEach_append s2 by (simp add: s3 del: call_listener.simps store_set.simps)
  have u4: "units w4 = (units w3)(b := (units w3 b)\<lparr>pos_x := fst ?q, pos_y := snd ?q\<rparr>)"
    and f4: "store_listeners w4 = store_listeners w3" "throws w4 = throws w3"
    and d4: "store_data w4 (getAttributeStoreName (units w3 b) ''pos'') =
        Some (Obj [(''x'', Num (fst ?q)), (''y'', Num (snd ?q))])"
    unfolding w4_def up by simp_all
  show "fst (update_pos (Suc (Suc n)) a p w) = None" by (simp add: s4)
  show "store_listeners (snd (update_pos (Suc (Suc n)) a p w)) = store_listeners w"
    by (simp add: s4 f4 f3)
  show "throws (snd (update_pos (Suc (Suc n)) a p w)) = throws w"
    by (simp add: s4 f4 f3)
  show "units (snd (update_pos (Suc (Suc n)) a p w)) =
      (units w)(a := (units w a)\<lparr>pos_x := fst p, pos_y := snd p\<rparr>,
                b := (units w b)\<lparr>pos_x := fst p + width (units w a) + padX,
                       pos_y := snd p + (height (units w a) - height (units w b)) / 2 + padY\<rparr>)"
    using ab by (simp add: s4 u4 u3 u1)
  show "store_data (snd (update_pos (Suc (Suc n)) a p w)) ?kB =
         Some (Obj [(''x'', Num (fst p + width (units w a) + padX)),
                    (''y'', Num (snd p + (height (units w a) - height (units w b)) / 2 + padY))])"
    using d4 by (simp add: s4 b3)
qed


lemma update_each_bound:
  assumes ab: "a \<noteq> b"
    and names: "unit_name (units w a) \<noteq> unit_name (units w b)"
    and la: "listeners_of w (getAttributeStoreName (units w a) ''pos'') =
               map Callback lsA @ [UpdatePosition c b a ''right'' padX padY]"
    and lb: "listeners_of w (getAttributeStoreName (units w b) ''pos'') = map Callback lsB"
    and nt: "\<forall>i v. \<not> throws w i v"
  shows "fst (update_each (Suc (Suc n)) a ps w) = None \<and>
     (\<forall>r. unit_name (units (snd (update_each (Suc (Suc n)) a ps w)) r) = unit_name (units w r) \<and>
          width (units (snd (update_each (Suc (Suc n)) a ps w)) r) = width (units w r) \<and>
          height (units (snd (update_each (Suc (Suc n)) a ps w)) r) = height (units w r)) \<and>
     (ps \<noteq> [] \<longrightarrow>
        pos_x (units (snd (update_each (Suc (Suc n)) a ps w)) a) = fst (last ps) \<and>
        pos_y (units (snd (update_each (Suc (Suc n)) a ps w)) a) = snd (last ps) \<and>
        pos_x (units (snd (update_each (Suc (Suc n)) a ps w)) b) =
          fst (last ps) + width (units w a) + padX \<and>
        pos_y (units (snd (update_each (Suc (Suc n)) a ps w)) b) =
          snd (last ps) + (height (units w a) - height (units w b)) / 2 + padY \<and>
        store_data (snd (update_each (Suc (Suc n)) a ps w))
            (getAttributeStoreName (units w b) ''pos'') =
          Some (Obj [(''x'', Num (fst (last ps) + width (units w a) + padX)),
                     (''y'', Num (snd (last ps) + (height (units w a) - height (units w b)) / 2
                        + padY))]))"
  using names la lb nt
proof (induction ps arbitrary: w)
  case Nil
  show ?case by simp
next
  case (Cons p ps)
  note ub = update_bound[OF ab Cons.prems, of n p]
  define w1 where "w1 = snd (update_pos (Suc (Suc n)) a p w)"
  have step: "update_pos (Suc (Suc n)) a p w = (None, w1)"
    using ub(1) unfolding w1_def by (simp add: prod_eq_iff)
  have ue: "update_each (Suc (Suc n)) a (p # ps) w = update_each (Suc (Suc n)) a ps w1"
    by (simp add: step)
  note u1 = ub(4)[folded w1_def]
  have same: "unit_name (units w1 r) = unit_name (units w r)"
    "width (units w1 r) = width (units w r)" "height (units w1 r) = height (units w r)" for r
    by (simp_all add: u1)
  have keys: "getAttributeStoreName (units w1 r) ''pos'' = getAttributeStoreName (units w r) ''pos''" for r
    by (simp add: getAttributeStoreName_def same)
  have ls: "listeners_of w1 k = listeners_of w k" for k
    using ub(2)[folded w1_def] by (simp add: listeners_of_def)
  have p1: "unit_name (units w1 a) \<noteq> unit_name (units w1 b)" using Cons.prems(1) by (simp add: same)
  have p2: "listeners_of w1 (getAttributeStoreName (units w1 a) ''pos'') =
               map Callback lsA @ [UpdatePosition c b a ''right'' padX padY]"
    using Cons.prems(2) by (simp add: keys ls)
  have p3: "listeners_of w1 (getAttributeStoreName (units w1 b) ''pos'') = map Callback lsB"
    using Cons.prems(3) by (simp add: keys ls)
  have p4: "\<forall>i v. \<not> throws w1 i v" using Cons.prems(4) ub(3)[folded w1_def] by simp
  note ih = Cons.IH[OF p1 p2 p3 p4, unfolded same keys]
  show ?case
  proof (cases "ps = []")
    case True
    have "update_each (Suc (Suc n)) a [p] w = (None, w1)" by (simp add: step)
    then show ?thesis
      using ab ub(5)[folded w1_def] unfolding True by (simp add: same u1)
  next
    case False
    then show ?thesis unfolding ue using ih by simp
  qed
qed

text \<open>
  C7, position binding. Let \<open>A\<close> and \<open>B\<close> be two units of different names, in a store
  where no user callback throws and the listeners of their two position keys are
  user callbacks, and let the call stack have room for two nested \<open>set\<close> calls. Then
  \<open>B.bindPositionRelativeTo(A, "right", {x: 5})\<close> returns normally and has placed \<open>B\<close>
  at once. After it, every \<open>A.update("pos", p)\<close> (the last of any sequence of them)
  returns normally with \<open>A\<close> at \<open>p\<close> and, in the state that this one call returns,
  \<open>B.pos.x = A.pos.x + A.size.width + 5\<close> and
  \<open>B.pos.y = A.pos.y + (A.size.height - B.size.height) / 2\<close>, the store holding the
  same position under \<open>B\<close>'s key.
\<close>

theorem position_binding_propagates:
  fixes w :: world and a b n :: nat and ps :: "(real \<times> real) list" and p :: "real \<times> real"
  defines "A \<equiv> units w a"
  defines "B \<equiv> units w b"
  defines "w1 \<equiv> snd (bindPositionRelativeTo (Suc n) b a ''right'' 5 0 w)"
  defines "w2 \<equiv> snd (update_each (Suc (Suc n)) a (ps @ [p]) w1)"
  assumes "a \<noteq> b" and "unit_name A \<noteq> unit_name B"
    and "callbacks_only w (getAttributeStoreName A ''pos'')"
    and "callbacks_only w (getAttributeStoreName B ''pos'')"
    and "\<forall>i v. \<not> throws w i v"
  shows "fst (bindPositionRelativeTo (Suc n) b a ''right'' 5 0 w) = None \<and>
     pos_x (units w1 b) = pos_x A + width A + 5 \<and>
     pos_y (units w1 b) = pos_y A + (height A - height B) / 2 \<and>
     fst (update_each (Suc (Suc n)) a (ps @ [p]) w1) = None \<and>
     pos_x (units w2 a) = fst p \<and> pos_y (units w2 a) = snd p \<and>
     width (units w2 a) = width A \<and> height (units w2 a) = height A \<and>
     height (units w2 b) = height B \<and>
     pos_x (units w2 b) = fst p + width A + 5 \<and>
     pos_y (units w2 b) = snd p + (height A - height B) / 2 \<and>
     store_get (getAttributeStoreName B ''pos'') w2 =
       Inr (Value (Obj [(''x'', Num (fst p + width A + 5)),
                        (''y'', Num (snd p + (height A - height B) / 2))]))"
proof -
  let ?kA = "getAttributeStoreName A ''pos''"
  let ?kB = "getAttributeStoreName B ''pos''"
  let ?f = "UpdatePosition (next_closure w) b a ''right'' 5 0"
  let ?keys = "[?kA, getAttributeStoreName A ''size'', getAttributeStoreName A ''rot'',
      getAttributeStoreName A ''scale'', getAttributeStoreName B ''size'',
      getAttributeStoreName B ''rot'', getAttributeStoreName B ''scale'']"
  obtain lsA where lsA: "listeners_of w ?kA = map Callback lsA"
    using callbacks_onlyD[OF assms(7)] by blast
  obtain lsB where lsB: "listeners_of w ?kB = map Callback lsB"
    using callbacks_onlyD[OF assms(8)] by blast
  define w0 where "w0 = w\<lparr>next_closure := Suc (next_closure w)\<rparr>"
  define wW where "wW = snd (watch_each ?keys ?f w0)"
  have plain: "\<forall>k\<in>set ?keys. k \<notin> set object_prototype_keys" by (simp add: key_plain)
  note we = watch_each_listeners[OF plain, of ?f w0, folded wW_def]
  have kAB: "?kA \<noteq> ?kB" using assms(6) by (simp add: key_pos_eq)
  have cA: "count_list ?keys ?kA = 1"
    by (simp add: key_pos_other key_pos_other[THEN not_sym])
  have cB: "count_list ?keys ?kB = 0"
    using kAB by (simp add: key_pos_other key_pos_other[THEN not_sym])
  have l0: "listeners_of w0 k = listeners_of w k" for k by (simp add: w0_def listeners_of_def)
  have uW: "units wW = units w" and tW: "throws wW = throws w"
    using we by (simp_all add: w0_def)
  have lA: "listeners_of wW ?kA = map Callback lsA @ [?f]"
    using we cA by (simp add: l0 lsA)
  have lB: "listeners_of wW ?kB = map Callback lsB"
    using we cB by (simp add: l0 lsB)
  have watch: "watch_each ?keys ?f w0 = (None, wW)"
    using we unfolding wW_def by (simp add: prod_eq_iff)
  have lB': "listeners_of wW (getAttributeStoreName (units wW b) ''pos'') = map Callback lsB"
    using lB by (simp add: uW B_def)
  have ntW: "\<forall>i v. \<not> throws wW i v" using assms(9) by (simp add: tW)
  let ?q = "place ''right'' (units wW b) (units wW a) 5 0"
  note up = update_pos_callbacks[OF lB' ntW, of n ?q]
  have uw0: "units w0 a = A" "units w0 b = B" by (simp_all add: w0_def A_def B_def)
  have "bindPositionRelativeTo (Suc n) b a ''right'' 5 0 w =
      call_listener (Suc n) ?f Undefined wW"
    unfolding bindPositionRelativeTo_def Let_def w0_def[symmetric] uw0 watch
    by (simp del: call_listener.simps)
  then have bind: "bindPositionRelativeTo (Suc n) b a ''right'' 5 0 w =
      update_pos (Suc n) b ?q wW"
    by (simp only: call_listener_update)
  have q: "?q = (pos_x A + width A + 5, pos_y A + (height A - height B) / 2)"
    by (simp add: place_right uW A_def B_def)
  have b1: "fst (bindPositionRelativeTo (Suc n) b a ''right'' 5 0 w) = None"
    unfolding bind up by simp
  have u1: "units w1 = (units w)(b := B\<lparr>pos_x := pos_x A + width A + 5,
        pos_y := pos_y A + (height A - height B) / 2\<rparr>)"
    and s1: "store_listeners w1 = store_listeners wW" and t1: "throws w1 = throws w"
    unfolding w1_def bind up
    by (simp_all add: q[unfolded uW] uW tW B_def)
  have a1: "units w1 a = A" using assms(5) by (simp add: u1 A_def)
  have nb1: "unit_name (units w1 b) = unit_name B" "height (units w1 b) = height B"
    by (simp_all add: u1)
  have ls1: "listeners_of w1 k = listeners_of wW k" for k by (simp add: listeners_of_def s1)
  have h1: "unit_name (units w1 a) \<noteq> unit_name (units w1 b)"
    using assms(6) by (simp add: a1 nb1)
  have h2: "listeners_of w1 (getAttributeStoreName (units w1 a) ''pos'') = map Callback lsA @ [?f]"
    using lA by (simp add: a1 ls1)
  have kB1: "getAttributeStoreName (units w1 b) ''pos'' = ?kB"
    by (simp add: getAttributeStoreName_def nb1)
  have h3: "listeners_of w1 (getAttributeStoreName (units w1 b) ''pos'') = map Callback lsB"
    using lB by (simp add: kB1 ls1)
  have h4: "\<forall>i v. \<not> throws w1 i v" using assms(9) by (simp add: t1)
  note ue0 = update_each_bound[OF assms(5) h1 h2 h3 h4, of n "ps @ [p]", folded w2_def]
  from ue0 have sa: "width (units w2 a) = width A" "height (units w2 a) = height A"
    unfolding a1[symmetric] by blast+
  from ue0 have sb: "height (units w2 b) = height B"
    unfolding nb1(2)[symmetric] by blast
  from ue0 have e2: "fst (update_each (Suc (Suc n)) a (ps @ [p]) w1) = None" by blast
  from ue0 have last: "pos_x (units w2 a) = fst p" "pos_y (units w2 a) = snd p"
    "pos_x (units w2 b) = fst p + width A + 5"
    "pos_y (units w2 b) = snd p + (height A - height B) / 2"
    "store_data w2 ?kB =
      Some (Obj [(''x'', Num (fst p + width A + 5)),
                 (''y'', Num (snd p + (height A - height B) / 2))])"
    unfolding a1 nb1 kB1 by simp_all
  have g: "store_get ?kB w2 =
       Inr (Value (Obj [(''x'', Num (fst p + width A + 5)),
                        (''y'', Num (snd p + (height A - height B) / 2))]))"
    using last(5) by (simp add: store_get_def data_lookup_def nullish_def)
  have pb: "pos_x (units w1 b) = pos_x A + width A + 5"
    "pos_y (units w1 b) = pos_y A + (height A - height B) / 2"
    by (simp_all add: u1)
  from b1 pb e2 last(1-4) sa sb g show ?thesis by simp
qed

theorem position_binding_propagates_witness:
  "pos_x (units (snd (bindPositionRelativeTo (Suc 0) 1 0 ''right'' 5 0 world_two)) 1) = 115 \<and>
   pos_y (units (snd (bindPositionRelativeTo (Suc 0) 1 0 ''right'' 5 0 world_two)) 1) = 40 \<and>
   pos_x (units (snd (update_each (Suc (Suc 0)) 0 ([] @ [(200, 300)])
      (snd (bindPositionRelativeTo (Suc 0) 1 0 ''right'' 5 0 world_two)))) 1) = 305 \<and>
   pos_y (units (snd (update_each (Suc (Suc 0)) 0 ([] @ [(200, 300)])
      (snd (bindPositionRelativeTo (Suc 0) 1 0 ''right'' 5 0 world_two)))) 1) = 330"
proof -
  have u: "units world_two 0 = default_unit\<lparr>unit_name := ''A''\<rparr>"
    "units world_two 1 = default_unit\<lparr>unit_name := ''B'', width := 30, height := 40\<rparr>"
    "units world_two (Suc 0) = default_unit\<lparr>unit_name := ''B'', width := 30, height := 40\<rparr>"
    by (simp_all add: world_two_def)
  have h1: "(0::nat) \<noteq> 1" by simp
  have h2: "unit_name (units world_two 0) \<noteq> unit_name (units world_two 1)"
    by (simp add: u)
  have h3: "callbacks_only world_two (getAttributeStoreName (units world_two 0) ''pos'')"
    "callbacks_only world_two (getAttributeStoreName (units world_two 1) ''pos'')"
    by (simp_all add: callbacks_only_def listeners_of_def world_two_def world0_def)
  have h4: "\<forall>i v. \<not> throws world_two i v" by (simp add: world_two_def world0_def)
  from position_binding_propagates[OF h1 h2 h3 h4, of 0 "[]" "(200, 300)"]
  show ?thesis by (simp add: u default_unit_def)
qed

end
